theory Spec2Isabelle
  imports Complex_Main "HOL-Library.Sublist"
begin

section \<open>Extracted records\<close>

text \<open>
  The object literal pushed by the extraction closure of \<^verbatim>\<open>src/server.js\<close> (lines 117-123):
  \<^verbatim>\<open>{ pinId, url, image, title, saves }\<close>. The field \<^verbatim>\<open>saves\<close> is initialised to
  \<^verbatim>\<open>0\<close> and only ever overwritten by \<^verbatim>\<open>parseInt(num, 10) || 0\<close> on a string of decimal
  digits, so it is a non-negative integer.
\<close>

record pin =
  pinId :: string
  url :: string
  image :: string
  title :: string
  saves :: nat

section \<open>Deduplication (line 128)\<close>

text \<open>
  \<^verbatim>\<open>arr.findIndex(pred)\<close>: the index of the first element satisfying the predicate,
  \<^verbatim>\<open>-1\<close> when there is none.
\<close>

fun findIndex_from :: "('a \<Rightarrow> bool) \<Rightarrow> int \<Rightarrow> 'a list \<Rightarrow> int" where
  "findIndex_from P k [] = - 1"
| "findIndex_from P k (x # xs) = (if P x then k else findIndex_from P (k + 1) xs)"

definition findIndex :: "('a \<Rightarrow> bool) \<Rightarrow> 'a list \<Rightarrow> int" where
  "findIndex P arr = findIndex_from P 0 arr"

text \<open>
  \<^verbatim>\<open>arr.filter((p, i, arr) => keep(p, i, arr))\<close>: the callback sees the element, its
  index and the whole array.
\<close>

fun filter_from :: "('a \<Rightarrow> int \<Rightarrow> 'a list \<Rightarrow> bool) \<Rightarrow> 'a list \<Rightarrow> int \<Rightarrow> 'a list \<Rightarrow> 'a list" where
  "filter_from keep arr i [] = []"
| "filter_from keep arr i (p # ps) =
     (if keep p i arr then p # filter_from keep arr (i + 1) ps
      else filter_from keep arr (i + 1) ps)"

definition filter_indexed :: "('a \<Rightarrow> int \<Rightarrow> 'a list \<Rightarrow> bool) \<Rightarrow> 'a list \<Rightarrow> 'a list" where
  "filter_indexed keep arr = filter_from keep arr 0 arr"

text \<open>
  \<^verbatim>\<open>pins.filter((p, i, arr) => arr.findIndex(x => x.pinId === p.pinId) === i)\<close>
\<close>

definition uniquePins :: "pin list \<Rightarrow> pin list" where
  "uniquePins pins =
     filter_indexed (\<lambda>p i arr. findIndex (\<lambda>x. pinId x = pinId p) arr = i) pins"

section \<open>Double-precision arithmetic\<close>

text \<open>
  JavaScript numbers are IEEE 754 binary64 values. The finite ones are rationals with a
  53-bit significand; every arithmetic operation returns the exact result rounded to the
  nearest such value, ties to the even significand. All quantities of \<^verbatim>\<open>computeKD\<close>
  are non-negative and either zero or at least \<open>1/10000\<close>, far above the subnormal
  range, so the rounding below keeps 53 bits at every magnitude; a rounded result of
  \<open>2 ^ 1024\<close> or more is the value \<^verbatim>\<open>Infinity\<close>. A loaded count is the length of an
  array, an integer that a double holds exactly.
\<close>

fun bitlength :: "nat \<Rightarrow> nat" where
  "bitlength n = (if n = 0 then 0 else Suc (bitlength (n div 2)))"

declare bitlength.simps [simp del]

definition pow2 :: "int \<Rightarrow> rat" where
  "pow2 e = (if 0 \<le> e then 2 ^ nat e else 1 / 2 ^ nat (- e))"

text \<open>The exponent \<open>e\<close> with \<open>2 ^ e \<le> x < 2 ^ (e + 1)\<close>, for positive \<open>x\<close>.\<close>

definition binade :: "rat \<Rightarrow> int" where
  "binade x =
     (if 1 \<le> x then int (bitlength (nat \<lfloor>x\<rfloor>)) - 1
      else - int (bitlength (nat \<lceil>1 / x\<rceil> - 1)))"

definition round_half_even :: "rat \<Rightarrow> int" where
  "round_half_even x =
     (let f = \<lfloor>x\<rfloor>; d = x - of_int f
      in if d < 1 / 2 then f
         else if 1 / 2 < d then f + 1
         else if even f then f else f + 1)"

definition rne :: "rat \<Rightarrow> rat" where
  "rne x =
     (if x = 0 then 0
      else let u = pow2 (binade \<bar>x\<bar> - 52)
           in of_int (round_half_even (x / u)) * u)"

datatype double = Fin rat | PInf

definition fl :: "rat \<Rightarrow> double" where
  "fl x = (let r = rne x in if 2 ^ 1024 \<le> r then PInf else Fin r)"

text \<open>\<^verbatim>\<open>a + b\<close>, and \<^verbatim>\<open>a / b\<close> for a finite positive divisor.\<close>

fun dadd :: "double \<Rightarrow> double \<Rightarrow> double" where
  "dadd (Fin a) (Fin b) = fl (a + b)"
| "dadd _ _ = PInf"

fun ddiv :: "double \<Rightarrow> rat \<Rightarrow> double" where
  "ddiv (Fin a) b = fl (a / b)"
| "ddiv PInf b = PInf"

text \<open>\<^verbatim>\<open>Math.min(1, x)\<close> for a non-NaN \<open>x\<close>: always finite.\<close>

fun min1 :: "double \<Rightarrow> rat" where
  "min1 (Fin a) = min 1 a"
| "min1 PInf = 1"

text \<open>
  \<^verbatim>\<open>Math.round(x)\<close>: the integer nearest to \<open>x\<close>, the larger one on a tie.
\<close>

definition Math_round :: "rat \<Rightarrow> int" where
  "Math_round x = \<lfloor>x + 1 / 2\<rfloor>"

section \<open>The difficulty score (lines 45-53)\<close>

text \<open>
  \<^verbatim>\<open>
  function computeKD(pins, loadedCount) {
    const top = pins.slice(0, 20);
    const avgSaves = top.length
      ? top.reduce((s, p) => s + (p.saves || 0), 0) / top.length
      : 0;
    const pop = Math.min(1, avgSaves / 500);
    const comp = Math.min(1, loadedCount / 1000);
    return Math.round((0.6 * comp + 0.4 * pop) * 100);
  }
  \<close>
  \<^verbatim>\<open>p.saves || 0\<close> is \<^verbatim>\<open>p.saves\<close> for a number that is not \<^verbatim>\<open>NaN\<close>. The literals
  \<^verbatim>\<open>0.6\<close> and \<^verbatim>\<open>0.4\<close> denote the doubles nearest to \<open>6/10\<close> and \<open>4/10\<close>.
\<close>

definition sum_saves :: "pin list \<Rightarrow> double" where
  "sum_saves top_pins = foldl (\<lambda>s p. dadd s (fl (of_nat (saves p)))) (Fin 0) top_pins"

definition avgSaves :: "pin list \<Rightarrow> double" where
  "avgSaves top_pins =
     (if length top_pins \<noteq> 0
      then ddiv (sum_saves top_pins) (of_nat (length top_pins)) else Fin 0)"

definition computeKD :: "pin list \<Rightarrow> nat \<Rightarrow> int" where
  "computeKD pins loadedCount =
     (let top_pins = take 20 pins;
          pop = min1 (ddiv (avgSaves top_pins) 500);
          comp = min1 (fl (of_nat loadedCount / 1000))
      in Math_round (rne (rne (rne (rne (6 / 10) * comp) + rne (rne (4 / 10) * pop)) * 100)))"

section \<open>Numbers that are integers or \<^verbatim>\<open>NaN\<close>\<close>

text \<open>
  The scroll count handed to \<^verbatim>\<open>pinterestSearch\<close> is the result of \<^verbatim>\<open>parseInt\<close> put
  through \<^verbatim>\<open>Math.max\<close> and \<^verbatim>\<open>Math.min\<close> (line 152): an integer or \<^verbatim>\<open>NaN\<close>.
  \<^verbatim>\<open>parseInt\<close> returns the double nearest to the integer it reads; integers are kept
  exact here, which changes nothing after the clamp, since every integer that a double
  cannot hold exactly lies far outside the interval from 1 to 10.
\<close>

datatype number = NaN | Num int

text \<open>\<^verbatim>\<open>a < b\<close>, \<^verbatim>\<open>Math.max(a, b)\<close>, \<^verbatim>\<open>Math.min(a, b)\<close>: any \<^verbatim>\<open>NaN\<close> operand gives
  \<^verbatim>\<open>false\<close>, respectively \<^verbatim>\<open>NaN\<close>.\<close>

fun js_less :: "number \<Rightarrow> number \<Rightarrow> bool" where
  "js_less (Num a) (Num b) = (a < b)"
| "js_less _ _ = False"

fun Math_max :: "number \<Rightarrow> number \<Rightarrow> number" where
  "Math_max (Num a) (Num b) = Num (max a b)"
| "Math_max _ _ = NaN"

fun Math_min :: "number \<Rightarrow> number \<Rightarrow> number" where
  "Math_min (Num a) (Num b) = Num (min a b)"
| "Math_min _ _ = NaN"

text \<open>
  Strings are the UTF-8 bytes of the text. The white space that \<^verbatim>\<open>parseInt\<close> and
  \<^verbatim>\<open>trim\<close> strip is JavaScript's white space and line terminators: TAB, LF, VT, FF,
  CR, SP, U+00A0 (bytes C2 A0), U+1680 (E1 9A 80), U+2000 to U+200A (E2 80 80 to
  E2 80 8A), U+2028, U+2029 and U+202F (E2 80 A8, E2 80 A9, E2 80 AF), U+205F
  (E2 81 9F), U+3000 (E3 80 80) and U+FEFF (EF BB BF). \<open>space_length s\<close> is the number
  of bytes of such a character at the head of \<open>s\<close>, and 0 when there is none.
\<close>

definition ascii_space :: "char \<Rightarrow> bool" where
  "ascii_space c = (of_char c \<in> {9, 10, 11, 12, 13, 32 :: nat})"

definition three_byte_space :: "nat \<Rightarrow> nat \<Rightarrow> nat \<Rightarrow> bool" where
  "three_byte_space a b c =
     ((a = 225 \<and> b = 154 \<and> c = 128)
      \<or> (a = 226 \<and> b = 128 \<and> ((128 \<le> c \<and> c \<le> 138) \<or> c = 168 \<or> c = 169 \<or> c = 175))
      \<or> (a = 226 \<and> b = 129 \<and> c = 159)
      \<or> (a = 227 \<and> b = 128 \<and> c = 128)
      \<or> (a = 239 \<and> b = 187 \<and> c = 191))"

fun space_length :: "string \<Rightarrow> nat" where
  "space_length (a # b # c # s) =
     (if ascii_space a then 1
      else if of_char a = (194 :: nat) \<and> of_char b = (160 :: nat) then 2
      else if three_byte_space (of_char a) (of_char b) (of_char c) then 3 else 0)"
| "space_length [a, b] =
     (if ascii_space a then 1
      else if of_char a = (194 :: nat) \<and> of_char b = (160 :: nat) then 2 else 0)"
| "space_length [a] = (if ascii_space a then 1 else 0)"
| "space_length [] = 0"

text \<open>The string without its leading white space.\<close>

function drop_space :: "string \<Rightarrow> string" where
  "drop_space s = (if space_length s = 0 then s else drop_space (drop (space_length s) s))"
  by pat_completeness auto
termination
  apply (relation "measure length")
   apply simp
  apply (case_tac s)
   apply simp_all
  done

declare drop_space.simps [simp del]

text \<open>
  The string without its trailing white space: it ends where only white space follows. A
  continuation byte of UTF-8 never starts a white-space character, so going byte by byte
  cuts no character in two.
\<close>

fun trim_end :: "string \<Rightarrow> string" where
  "trim_end [] = []"
| "trim_end (c # cs) = (if drop_space (c # cs) = [] then [] else c # trim_end cs)"

definition is_digit :: "char \<Rightarrow> bool" where
  "is_digit c = (48 \<le> (of_char c :: nat) \<and> (of_char c :: nat) \<le> 57)"

definition digit_value :: "char \<Rightarrow> nat" where
  "digit_value c = of_char c - 48"

text \<open>
  \<^verbatim>\<open>parseInt(s, 10)\<close>: skip leading white space, read an optional sign, then the longest
  run of decimal digits; \<^verbatim>\<open>NaN\<close> when that run is empty. What follows the digits is
  ignored.
\<close>

definition parseInt10 :: "string \<Rightarrow> number" where
  "parseInt10 s =
     (let t = drop_space s;
          negative = (case t of [] \<Rightarrow> False | c # _ \<Rightarrow> c = CHR ''-'');
          u = (case t of [] \<Rightarrow> [] | c # cs \<Rightarrow> if c = CHR ''+'' \<or> c = CHR ''-'' then cs else t);
          z = takeWhile is_digit u
      in if z = [] then NaN
         else Num ((if negative then - 1 else 1)
                   * int (foldl (\<lambda>a c. 10 * a + digit_value c) 0 z)))"

text \<open>\<^verbatim>\<open>String(n)\<close> inside a template literal.\<close>

fun digits_of :: "nat \<Rightarrow> string" where
  "digits_of n =
     (if n < 10 then [char_of (48 + n)]
      else digits_of (n div 10) @ [char_of (48 + n mod 10)])"

declare digits_of.simps [simp del]

fun number_to_string :: "number \<Rightarrow> string" where
  "number_to_string NaN = ''NaN''"
| "number_to_string (Num i) =
     (if i < 0 then CHR ''-'' # digits_of (nat (- i)) else digits_of (nat i))"

text \<open>\<^verbatim>\<open>s.trim()\<close>\<close>

definition trim :: "string \<Rightarrow> string" where
  "trim s = trim_end (drop_space s)"

text \<open>
  \<^verbatim>\<open>encodeURIComponent\<close>: every byte of the UTF-8 text that is not a letter, a digit or
  one of \<^verbatim>\<open>- _ . ! ~ * ' ( )\<close> becomes \<^verbatim>\<open>%XX\<close>.
\<close>

definition unreserved :: "char \<Rightarrow> bool" where
  "unreserved c =
     (let n = (of_char c :: nat)
      in (65 \<le> n \<and> n \<le> 90) \<or> (97 \<le> n \<and> n \<le> 122) \<or> (48 \<le> n \<and> n \<le> 57)
         \<or> n \<in> {45, 95, 46, 33, 126, 42, 39, 40, 41})"

definition hex_digit :: "nat \<Rightarrow> char" where
  "hex_digit n = (if n < 10 then char_of (48 + n) else char_of (55 + n))"

definition encodeURIComponent :: "string \<Rightarrow> string" where
  "encodeURIComponent s =
     concat (map (\<lambda>c. if unreserved c then [c]
                       else [CHR ''%'', hex_digit (of_char c div 16), hex_digit (of_char c mod 16)]) s)"

section \<open>The Search Result and the cache (lines 42, 131-137)\<close>

record search_result =
  query :: string
  loadedPins :: nat
  keywordDifficulty :: int
  lowCompetition :: bool
  sample :: "pin list"

text \<open>
  \<^verbatim>\<open>new LRU({ max: 200, ttl: 1000 * 60 * 30 })\<close>: the cache is an object of the
  \<^verbatim>\<open>lru-cache\<close> package, whose source is not part of the repository. A cache is the
  list of its entries, most recently used first, each with its insertion time in
  milliseconds.
\<close>

type_synonym lru = "(string \<times> search_result \<times> nat) list"

definition ttl :: nat where
  "ttl = 1000 * 60 * 30"

definition max_entries :: nat where
  "max_entries = 200"

text \<open>
  Modelled from the spec: the operations \<^verbatim>\<open>has\<close>, \<^verbatim>\<open>get\<close> and \<^verbatim>\<open>set\<close> of the
  \<^verbatim>\<open>lru-cache\<close> package, after section 4.4 of the specification. An entry older than
  the time-to-live behaves as absent; \<^verbatim>\<open>get\<close> drops such an entry and otherwise marks
  the entry as most recently used; \<^verbatim>\<open>set\<close> replaces the entry of its key and evicts
  from the least recently used end beyond the capacity. The time \<open>t\<close> is the clock at
  the call.
\<close>

definition cache_has :: "lru \<Rightarrow> nat \<Rightarrow> string \<Rightarrow> bool" where
  "cache_has c t k =
     (case map_of c k of None \<Rightarrow> False | Some (v, start) \<Rightarrow> t \<le> start + ttl)"

definition cache_get :: "lru \<Rightarrow> nat \<Rightarrow> string \<Rightarrow> search_result option \<times> lru" where
  "cache_get c t k =
     (case map_of c k of
        None \<Rightarrow> (None, c)
      | Some (v, start) \<Rightarrow>
          if t \<le> start + ttl then (Some v, (k, v, start) # filter (\<lambda>e. fst e \<noteq> k) c)
          else (None, filter (\<lambda>e. fst e \<noteq> k) c))"

definition cache_set :: "lru \<Rightarrow> nat \<Rightarrow> string \<Rightarrow> search_result \<Rightarrow> lru" where
  "cache_set c t k v = take max_entries ((k, v, t) # filter (\<lambda>e. fst e \<noteq> k) c)"

section \<open>The browser as an environment\<close>

text \<open>
  Every awaited call into Playwright is an action. The environment decides, from the
  history of the actions so far, whether an action fails and with which error, how long it
  takes, and what the extraction closure returns; the world records the history. The two
  promises of \<^verbatim>\<open>Promise.all([page.click(...), page.waitForLoadState(...)])\<close> are awaited
  together and are one action.
\<close>

datatype error = Error string

datatype field = Input_id | Input_password

datatype action =
    Launch
  | NewContext
  | NewPage
  | Goto string
  | Fill field string
  | ClickAndWaitForLoadState
  | ScrollToBottom
  | WaitForTimeout nat
  | ExtractPins
  | ClosePage
  | CloseContext

type_synonym event = "action \<times> error option"

record env =
  PIN_EMAIL :: "string option"
  PIN_PASSWORD :: "string option"
  outcome :: "event list \<Rightarrow> action \<Rightarrow> error option"
  duration :: "event list \<Rightarrow> action \<Rightarrow> nat"
  random_draw :: "event list \<Rightarrow> nat"
  page_pins :: "event list \<Rightarrow> pin list"

record world =
  cache :: lru
  browser :: bool
  trace :: "event list"
  now :: nat

type_synonym 'a io = "world \<Rightarrow> (error + 'a) \<times> world"

definition act :: "env \<Rightarrow> action \<Rightarrow> unit io" where
  "act env a w =
     (let r = outcome env (trace w) a;
          w' = w\<lparr>trace := trace w @ [(a, r)], now := now w + duration env (trace w) a\<rparr>
      in (case r of None \<Rightarrow> (Inr (), w') | Some e \<Rightarrow> (Inl e, w')))"

text \<open>\<^verbatim>\<open>const x = await m; ...\<close>: a rejected promise aborts what follows.\<close>

definition await :: "'a io \<Rightarrow> ('a \<Rightarrow> 'b io) \<Rightarrow> 'b io" where
  "await m f w = (case m w of (Inl e, w') \<Rightarrow> (Inl e, w') | (Inr x, w') \<Rightarrow> f x w')"

text \<open>
  \<^verbatim>\<open>try { body } finally { fin }\<close>: the finally block always runs; when it throws, its
  error replaces the outcome of the body, otherwise the outcome of the body stands.
\<close>

definition try_finally :: "'a io \<Rightarrow> unit io \<Rightarrow> 'a io" where
  "try_finally body fin w =
     (case body w of (r, w1) \<Rightarrow>
        (case fin w1 of (Inl e, w2) \<Rightarrow> (Inl e, w2) | (Inr _, w2) \<Rightarrow> (r, w2)))"

section \<open>The shared browser (lines 56-62)\<close>

text \<open>
  \<^verbatim>\<open>
  let browser;
  async function getBrowser() {
    if (!browser) {
      browser = await chromium.launch({ headless: true });
    }
    return browser;
  }
  \<close>
\<close>

definition getBrowser :: "env \<Rightarrow> unit io" where
  "getBrowser env w =
     (if \<not> browser w
      then await (act env Launch) (\<lambda>_ w'. (Inr (), w'\<lparr>browser := True\<rparr>)) w
      else (Inr (), w))"

section \<open>The orchestrator (lines 64-145)\<close>

text \<open>
  \<^verbatim>\<open>const cacheKey = `${query}|${scrolls}|${login}`;\<close>
  The parameters are the values after destructuring; the route handler, the only caller,
  passes all three, so the defaults \<^verbatim>\<open>scrolls = 3\<close> and \<^verbatim>\<open>login = false\<close> never apply.
\<close>

definition cacheKey :: "string \<Rightarrow> number \<Rightarrow> bool \<Rightarrow> string" where
  "cacheKey q scrolls login =
     q @ ''|'' @ number_to_string scrolls @ ''|'' @ (if login then ''true'' else ''false'')"

text \<open>A string of the process environment is truthy when it is set and not empty.\<close>

definition truthy :: "string option \<Rightarrow> bool" where
  "truthy v = (case v of None \<Rightarrow> False | Some s \<Rightarrow> s \<noteq> [])"

definition text_of :: "string option \<Rightarrow> string" where
  "text_of v = (case v of None \<Rightarrow> [] | Some s \<Rightarrow> s)"

text \<open>Lines 73-81: the optional login.\<close>

definition login_steps :: "env \<Rightarrow> bool \<Rightarrow> unit io" where
  "login_steps env login =
     (if login \<and> truthy (PIN_EMAIL env) \<and> truthy (PIN_PASSWORD env)
      then await (act env (Goto ''https://www.pinterest.com/login/'')) (\<lambda>_.
           await (act env (Fill Input_id (text_of (PIN_EMAIL env)))) (\<lambda>_.
           await (act env (Fill Input_password (text_of (PIN_PASSWORD env)))) (\<lambda>_.
           act env ClickAndWaitForLoadState)))
      else (\<lambda>w. (Inr (), w)))"

text \<open>
  Lines 87-90:
  \<^verbatim>\<open>
  for (let i = 0; i < scrolls; i++) {
    await page.evaluate(() => window.scrollTo(0, document.body.scrollHeight));
    await page.waitForTimeout(1500 + Math.floor(Math.random() * 1000));
  }
  \<close>
  \<^verbatim>\<open>Math.floor(Math.random() * 1000)\<close> is an integer below 1000 that the environment
  picks.
\<close>

function scroll_loop :: "env \<Rightarrow> number \<Rightarrow> int \<Rightarrow> unit io" where
  "scroll_loop env scrolls i w =
     (if js_less (Num i) scrolls
      then (case act env ScrollToBottom w of
              (Inl e, w1) \<Rightarrow> (Inl e, w1)
            | (Inr _, w1) \<Rightarrow>
                (case act env (WaitForTimeout (1500 + random_draw env (trace w1) mod 1000)) w1 of
                   (Inl e, w2) \<Rightarrow> (Inl e, w2)
                 | (Inr _, w2) \<Rightarrow> scroll_loop env scrolls (i + 1) w2))
      else (Inr (), w))"
  by pat_completeness auto
termination
  by (relation "measure (\<lambda>(env, scrolls, i, w). case scrolls of NaN \<Rightarrow> 0 | Num n \<Rightarrow> nat (n - i))")
    (auto split: number.splits)

declare scroll_loop.simps [simp del]

text \<open>Lines 92-126: the extraction closure runs in the page; its result is the
  environment's.\<close>

definition evaluate_pins :: "env \<Rightarrow> (pin list) io" where
  "evaluate_pins env w =
     (case act env ExtractPins w of
        (Inl e, w') \<Rightarrow> (Inl e, w')
      | (Inr _, w') \<Rightarrow> (Inr (page_pins env (trace w)), w'))"

text \<open>Lines 73-126, the browser work of the try block.\<close>

definition scrape :: "env \<Rightarrow> string \<Rightarrow> number \<Rightarrow> bool \<Rightarrow> (pin list) io" where
  "scrape env q scrolls login =
     await (login_steps env login) (\<lambda>_.
     await (act env (Goto (''https://www.pinterest.com/search/pins/?q='' @ encodeURIComponent q))) (\<lambda>_.
     await (scroll_loop env scrolls 0) (\<lambda>_.
     evaluate_pins env)))"

text \<open>
  Lines 128-140:
  \<^verbatim>\<open>
  const uniquePins = pins.filter(...);
  const kd = computeKD(uniquePins, uniquePins.length);
  const out = { query, loadedPins: uniquePins.length, keywordDifficulty: kd,
                lowCompetition: kd <= 35, sample: uniquePins.slice(0, 50) };
  cache.set(cacheKey, out);
  return out;
  \<close>
\<close>

definition assemble :: "string \<Rightarrow> pin list \<Rightarrow> search_result" where
  "assemble q pins =
     (let unique = uniquePins pins;
          kd = computeKD unique (length unique)
      in \<lparr>query = q, loadedPins = length unique, keywordDifficulty = kd,
          lowCompetition = (kd \<le> 35), sample = take 50 unique\<rparr>)"

definition store_and_return :: "string \<Rightarrow> string \<Rightarrow> pin list \<Rightarrow> (search_result option) io" where
  "store_and_return key q pins w =
     (let out = assemble q pins
      in (Inr (Some out), w\<lparr>cache := cache_set (cache w) (now w) key out\<rparr>))"

text \<open>Lines 141-144: \<^verbatim>\<open>await page.close(); await context.close();\<close>\<close>

definition cleanup :: "env \<Rightarrow> unit io" where
  "cleanup env = await (act env ClosePage) (\<lambda>_. act env CloseContext)"

text \<open>
  The result is \<^verbatim>\<open>cache.get(cacheKey)\<close> on a hit, which is a Search Result or
  \<^verbatim>\<open>undefined\<close> (\<open>None\<close>), and \<^verbatim>\<open>out\<close> on a miss.
\<close>

definition pinterestSearch :: "env \<Rightarrow> string \<Rightarrow> number \<Rightarrow> bool \<Rightarrow> (search_result option) io" where
  "pinterestSearch env q scrolls login w =
     (if cache_has (cache w) (now w) (cacheKey q scrolls login)
      then (case cache_get (cache w) (now w) (cacheKey q scrolls login) of
              (v, c) \<Rightarrow> (Inr v, w\<lparr>cache := c\<rparr>))
      else await (getBrowser env) (\<lambda>_.
           await (act env NewContext) (\<lambda>_.
           await (act env NewPage) (\<lambda>_.
           try_finally
             (await (scrape env q scrolls login)
                (store_and_return (cacheKey q scrolls login) q))
             (cleanup env)))) w)"

section \<open>The route handler (lines 147-162)\<close>

record request =
  req_q :: "string option"
  req_scrolls :: "string option"
  req_login :: "string option"

datatype response =
    Ok_200 "search_result option"
  | Bad_request_400 string
  | Server_error_500 string

text \<open>
  Line 152:
  \<^verbatim>\<open>Math.min(10, Math.max(1, parseInt(req.query.scrolls?.toString() || '3', 10)))\<close>
\<close>

definition scrolls_param :: "string option \<Rightarrow> number" where
  "scrolls_param s =
     Math_min (Num 10) (Math_max (Num 1)
       (parseInt10 (case s of None \<Rightarrow> ''3'' | Some t \<Rightarrow> if t = [] then ''3'' else t)))"

definition api_pinterest :: "env \<Rightarrow> request \<Rightarrow> world \<Rightarrow> response \<times> world" where
  "api_pinterest env req w =
     (let q = trim (text_of (req_q req))
      in if q = [] then (Bad_request_400 ''Missing q'', w)
         else let scrolls = scrolls_param (req_scrolls req);
                  login = (req_login req = Some ''1'')
              in (case pinterestSearch env q scrolls login w of
                    (Inr data, w') \<Rightarrow> (Ok_200 data, w')
                  | (Inl (Error message), w') \<Rightarrow>
                      (Server_error_500 (if message = [] then ''Internal error'' else message), w')))"

section \<open>Notions used in the statements\<close>

text \<open>What one call added to the history, and how many scroll iterations it began.\<close>

definition events_since :: "world \<Rightarrow> world \<Rightarrow> event list" where
  "events_since w w' = drop (length (trace w)) (trace w')"

definition iterations :: "event list \<Rightarrow> nat" where
  "iterations evs = length (filter (\<lambda>ev. fst ev = ScrollToBottom) evs)"

text \<open>
  No retry: an action that failed is not attempted again later in the same call.
\<close>

fun no_retry :: "event list \<Rightarrow> bool" where
  "no_retry [] = True"
| "no_retry (ev # evs) = ((snd ev = None \<or> fst ev \<notin> set (map fst evs)) \<and> no_retry evs)"

section \<open>Concrete scenarios\<close>

text \<open>
  Two records and environments for the scenarios of the specification: the extraction
  yields the records A, B, A with 100, 50 and 100 saves, no credentials are configured,
  every action takes 100 ms, each random wait is 1750 ms, and exactly the listed actions
  fail, each with its error. \<open>world0\<close> is a fresh process: empty cache, no browser.
  \<open>world1\<close> is the process after the scenario has run once.
\<close>

definition pin_A :: pin where
  "pin_A = \<lparr>pinId = ''A'', url = ''https://www.pinterest.com/pin/A/'', image = '''', title = '''', saves = 100\<rparr>"

definition pin_B :: pin where
  "pin_B = \<lparr>pinId = ''B'', url = ''https://www.pinterest.com/pin/B/'', image = '''', title = '''', saves = 50\<rparr>"

definition failing :: "(action \<times> error) list \<Rightarrow> env" where
  "failing fs =
     \<lparr>PIN_EMAIL = None, PIN_PASSWORD = None, outcome = (\<lambda>h a. map_of fs a),
      duration = (\<lambda>h a. 100), random_draw = (\<lambda>h. 250),
      page_pins = (\<lambda>h. [pin_A, pin_B, pin_A])\<rparr>"

definition world0 :: world where
  "world0 = \<lparr>cache = [], browser = False, trace = [], now = 0\<rparr>"

definition mugs_url :: string where
  "mugs_url = ''https://www.pinterest.com/search/pins/?q=ceramic%20mugs''"

definition world1 :: world where
  "world1 =
     \<lparr>cache = [(''ceramic mugs|2|false'', assemble ''ceramic mugs'' [pin_A, pin_B, pin_A], 900)],
      browser = True,
      trace = [(Launch, None), (NewContext, None), (NewPage, None), (Goto mugs_url, None),
               (ScrollToBottom, None), (WaitForTimeout 1750, None),
               (ScrollToBottom, None), (WaitForTimeout 1750, None),
               (ExtractPins, None), (ClosePage, None), (CloseContext, None)],
      now = 1100\<rparr>"

section \<open>Auxiliary notions of the proofs\<close>

text \<open>A double that is not negative: the only kind \<^verbatim>\<open>computeKD\<close> meets.\<close>

fun nonneg :: "double \<Rightarrow> bool" where
  "nonneg (Fin a) = (0 \<le> a)"
| "nonneg PInf = True"

text \<open>Deduplication with an explicit list of the identifiers seen so far.\<close>

fun first_seen :: "string list \<Rightarrow> pin list \<Rightarrow> pin list" where
  "first_seen seen [] = []"
| "first_seen seen (p # ps) =
     (if pinId p \<in> set seen then first_seen seen ps
      else p # first_seen (pinId p # seen) ps)"

text \<open>
  The events of a computation that stops at its first failure: all succeeded, or all but
  the last one, whose error is the result. \<open>steps P m w\<close> says that \<open>m\<close>, run in
  \<open>w\<close>, leaves the cache alone and adds such events, all of actions in \<open>P\<close>.
\<close>

definition all_ok :: "event list \<Rightarrow> bool" where
  "all_ok evs = list_all (\<lambda>ev. snd ev = None) evs"

fun shape :: "event list \<Rightarrow> error + 'a \<Rightarrow> bool" where
  "shape evs (Inr x) = all_ok evs"
| "shape evs (Inl e) = (\<exists>pre a. evs = pre @ [(a, Some e)] \<and> all_ok pre)"

definition steps :: "(action \<Rightarrow> bool) \<Rightarrow> 'a io \<Rightarrow> world \<Rightarrow> bool" where
  "steps P m w =
     (cache (snd (m w)) = cache w
      \<and> (\<exists>evs. trace (snd (m w)) = trace w @ evs \<and> shape evs (fst (m w))
             \<and> list_all (\<lambda>ev. P (fst ev)) evs))"

fun acquisition :: "action \<Rightarrow> bool" where
  "acquisition Launch = True"
| "acquisition NewContext = True"
| "acquisition NewPage = True"
| "acquisition _ = False"

fun body_action :: "number \<Rightarrow> action \<Rightarrow> bool" where
  "body_action s (Goto u) = True"
| "body_action s (Fill f v) = True"
| "body_action s ClickAndWaitForLoadState = True"
| "body_action s ScrollToBottom = (s \<noteq> NaN)"
| "body_action s (WaitForTimeout n) = (s \<noteq> NaN)"
| "body_action s ExtractPins = True"
| "body_action s _ = False"

definition fin_shape :: "event list \<Rightarrow> error + unit \<Rightarrow> bool" where
  "fin_shape fin rf =
     ((fin = [(ClosePage, None), (CloseContext, None)] \<and> rf = Inr ())
      \<or> (\<exists>e. fin = [(ClosePage, None), (CloseContext, Some e)] \<and> rf = Inl e)
      \<or> (\<exists>e. fin = [(ClosePage, Some e)] \<and> rf = Inl e))"

definition settle :: "error + unit \<Rightarrow> error + pin list \<Rightarrow> string \<Rightarrow> error + search_result option" where
  "settle rf rb q =
     (case rf of
        Inl e \<Rightarrow> Inl e
      | Inr _ \<Rightarrow> (case rb of Inl e \<Rightarrow> Inl e | Inr pins \<Rightarrow> Inr (Some (assemble q pins))))"

section \<open>Properties of the rounding\<close>

lemma bitlength_pos: "0 < n \<Longrightarrow> bitlength n = Suc (bitlength (n div 2))"
  by (subst bitlength.simps) simp

lemma bitlength_bounds: "0 < n \<Longrightarrow> 2 ^ (bitlength n - 1) \<le> n \<and> n < 2 ^ bitlength n"
proof (induction n rule: bitlength.induct)
  case (1 n)
  define m where "m = n div 2"
  have n: "n = 2 * m + n mod 2" "n mod 2 < 2" by (simp_all add: m_def)
  have bl: "bitlength n = Suc (bitlength m)"
    using "1.prems" by (simp add: bitlength_pos m_def)
  show ?case
  proof (cases "m = 0")
    case True
    then have "bitlength m = 0" by (simp add: bitlength.simps)
    with True n "1.prems" show ?thesis unfolding bl by simp
  next
    case False
    then have pos: "0 < m" by simp
    obtain k where k: "bitlength m = Suc k"
      using bitlength_pos [OF pos] by blast
    from "1.IH" [OF _ pos [unfolded m_def]] "1.prems"
    have ih: "2 ^ k \<le> m" "m < 2 * 2 ^ k"
      by (simp_all add: k m_def [symmetric])
    have "2 * 2 ^ k \<le> n" "n < 2 * (2 * 2 ^ k)"
      using ih n by linarith+
    then show ?thesis unfolding bl k by simp
  qed
qed

lemma pow2_powi: "pow2 e = 2 powi e"
  by (simp add: pow2_def power_int_def inverse_eq_divide power_one_over)

lemma pow2_pos: "0 < pow2 e"
  by (simp add: pow2_powi)

lemma pow2_add: "pow2 (a + b) = pow2 a * pow2 b"
  by (simp add: pow2_powi power_int_add)

lemma pow2_mono: "a \<le> b \<Longrightarrow> pow2 a \<le> pow2 b"
  by (simp add: pow2_powi power_int_increasing)

lemma pow2_nat: "pow2 (int k) = 2 ^ k"
  by (simp add: pow2_def)

lemma pow2_neg: "pow2 (- int k) = 1 / 2 ^ k"
  by (cases k) (simp_all add: pow2_def nat_add_distrib)

lemma pow2_less_cancel: "pow2 a < pow2 b \<Longrightarrow> a < b"
  using pow2_mono [of b a] by (cases "a < b") auto

lemma binade_bounds:
  assumes "0 < x"
  shows "pow2 (binade x) \<le> x \<and> x < pow2 (binade x + 1)"
proof (cases "1 \<le> x")
  case True
  define n where "n = nat \<lfloor>x\<rfloor>"
  have npos: "0 < n" using True by (simp add: n_def)
  have fl: "of_nat n \<le> x" "x < of_nat n + 1"
    using True floor_correct [of x] by (simp_all add: n_def)
  obtain k where k: "bitlength n = Suc k"
    using bitlength_pos [OF npos] by blast
  from bitlength_bounds [OF npos] have b: "2 ^ k \<le> n" "n < 2 ^ Suc k"
    by (simp_all add: k)
  have e: "binade x = int k" using True by (simp add: binade_def n_def [symmetric] k)
  have a: "(2::rat) ^ k \<le> of_nat n"
    using b(1) by (metis of_nat_le_iff of_nat_numeral of_nat_power)
  have c: "of_nat n + 1 \<le> (2::rat) ^ Suc k"
  proof -
    have "n + 1 \<le> 2 ^ Suc k" using b(2) by simp
    then have "(of_nat (n + 1) :: rat) \<le> of_nat (2 ^ Suc k)" by (simp only: of_nat_le_iff)
    then show ?thesis by simp
  qed
  have d: "pow2 (int k + 1) = 2 ^ Suc k"
    using pow2_nat [of "Suc k"] by (simp add: add.commute)
  have "2 ^ k \<le> x" using a fl(1) by (rule order_trans)
  moreover have "x < 2 ^ Suc k" using fl(2) c by (rule less_le_trans)
  ultimately show ?thesis unfolding e pow2_nat d by blast
next
  case False
  define y where "y = 1 / x"
  have y1: "1 < y" using False assms by (simp add: y_def)
  define m where "m = nat \<lceil>y\<rceil>"
  have cl: "y \<le> of_nat m" "of_nat m < y + 1"
    using y1 ceiling_correct [of y] by (simp_all add: m_def)
  have m2: "2 \<le> m"
  proof -
    have "(1::rat) < of_nat m" using y1 cl(1) by simp
    then have "1 < m" by simp
    then show ?thesis by simp
  qed
  define p where "p = m - 1"
  have mp: "m = Suc p" using m2 by (simp add: p_def)
  have ppos: "0 < p" using m2 by (simp add: p_def)
  obtain k where k: "bitlength p = Suc k"
    using bitlength_pos [OF ppos] by blast
  from bitlength_bounds [OF ppos] have b: "2 ^ k \<le> p" "p < 2 ^ Suc k"
    by (simp_all add: k)
  have pe: "nat \<lceil>1 / x\<rceil> - 1 = p" by (simp add: p_def m_def y_def)
  have e: "binade x = - int (Suc k)"
    using False unfolding binade_def pe k by simp
  have up: "y \<le> 2 ^ Suc k"
  proof -
    have "m \<le> 2 ^ Suc k" using b(2) mp by simp
    then have "(of_nat m :: rat) \<le> of_nat (2 ^ Suc k)" by (simp only: of_nat_le_iff)
    with cl(1) show ?thesis by simp
  qed
  have lo: "2 ^ k < y"
  proof -
    have "2 ^ k + 1 \<le> m" using b(1) mp by simp
    then have "(of_nat (2 ^ k + 1) :: rat) \<le> of_nat m" by (simp only: of_nat_le_iff)
    with cl(2) show ?thesis by simp
  qed
  have x: "x = 1 / y" by (simp add: y_def)
  have ypos: "0 < y" using y1 by simp
  have "1 / 2 ^ Suc k \<le> x"
    unfolding x using up ypos by (simp add: frac_le)
  moreover have "x < 1 / 2 ^ k"
    unfolding x using lo ypos by (simp add: frac_less2)
  moreover have "pow2 (- int (Suc k) + 1) = 1 / 2 ^ k"
    using pow2_neg [of k] by simp
  ultimately show ?thesis unfolding e pow2_neg by simp
qed


lemma rhe_bounds: "\<lfloor>x\<rfloor> \<le> round_half_even x \<and> round_half_even x \<le> \<lfloor>x\<rfloor> + 1"
  by (simp add: round_half_even_def Let_def)

lemma rhe_of_int: "round_half_even (of_int n) = n"
  by (simp add: round_half_even_def Let_def)

lemma rhe_mono:
  assumes "x \<le> y"
  shows "round_half_even x \<le> round_half_even y"
proof (cases "\<lfloor>x\<rfloor> = \<lfloor>y\<rfloor>")
  case True
  with assms show ?thesis
    by (auto simp: round_half_even_def Let_def)
next
  case False
  with assms have "\<lfloor>x\<rfloor> + 1 \<le> \<lfloor>y\<rfloor>"
    using floor_mono [of x y] by linarith
  with rhe_bounds [of x] rhe_bounds [of y] show ?thesis by linarith
qed

lemma rhe_le_int: "x \<le> of_int n \<Longrightarrow> round_half_even x \<le> n"
  using rhe_mono [of x "of_int n"] by (simp add: rhe_of_int)

lemma rhe_ge_int: "of_int n \<le> x \<Longrightarrow> n \<le> round_half_even x"
  using rhe_mono [of "of_int n" x] by (simp add: rhe_of_int)

lemma rne_pos_def:
  "0 < x \<Longrightarrow> rne x = of_int (round_half_even (x / pow2 (binade x - 52))) * pow2 (binade x - 52)"
  by (simp add: rne_def Let_def)

lemma rne_zero: "rne 0 = 0"
  by (simp add: rne_def)

lemma rne_range:
  assumes "0 < x"
  shows "pow2 (binade x) \<le> rne x \<and> rne x \<le> pow2 (binade x + 1)"
proof -
  define e where "e = binade x"
  define u where "u = pow2 (e - 52)"
  have upos: "0 < u" by (simp add: u_def pow2_pos)
  have r: "rne x = of_int (round_half_even (x / u)) * u"
    using assms by (simp add: rne_pos_def u_def e_def)
  from binade_bounds [OF assms] have b: "pow2 e \<le> x" "x < pow2 (e + 1)"
    by (simp_all add: e_def)
  have lo: "pow2 e = of_int (2 ^ 52) * u"
    using pow2_add [of 52 "e - 52"] pow2_nat [of 52] by (simp add: u_def)
  have hi: "pow2 (e + 1) = of_int (2 ^ 53) * u"
    using pow2_add [of 53 "e - 52"] pow2_nat [of 53] by (simp add: u_def add.commute)
  have "of_int (2 ^ 52) \<le> x / u"
    using b(1) upos unfolding lo by (simp add: pos_le_divide_eq)
  then have "2 ^ 52 \<le> round_half_even (x / u)" by (rule rhe_ge_int)
  then have "(of_int (2 ^ 52) :: rat) \<le> of_int (round_half_even (x / u))"
    by (simp only: of_int_le_iff)
  then have 1: "pow2 e \<le> rne x"
    unfolding lo r using upos by (simp only: mult_le_cancel_right_pos)
  have "x / u \<le> of_int (2 ^ 53)"
    using b(2) upos unfolding hi by (simp add: pos_divide_le_eq)
  then have "round_half_even (x / u) \<le> 2 ^ 53" by (rule rhe_le_int)
  then have "(of_int (round_half_even (x / u)) :: rat) \<le> of_int (2 ^ 53)"
    by (simp only: of_int_le_iff)
  then have 2: "rne x \<le> pow2 (e + 1)"
    unfolding hi r using upos by (simp only: mult_le_cancel_right_pos)
  from 1 2 show ?thesis by (simp add: e_def)
qed

lemma rne_nonneg: "0 \<le> x \<Longrightarrow> 0 \<le> rne x"
proof (cases "x = 0")
  case True
  then show ?thesis by (simp add: rne_zero)
next
  case False
  assume "0 \<le> x"
  with False have "0 < x" by simp
  from rne_range [OF this] pow2_pos [of "binade x"] show ?thesis by linarith
qed

lemma rne_mono_pos:
  assumes "0 < x" "x \<le> y"
  shows "rne x \<le> rne y"
proof -
  have ypos: "0 < y" using assms by simp
  from binade_bounds [OF assms(1)] binade_bounds [OF ypos] assms(2)
  have "pow2 (binade x) < pow2 (binade y + 1)" by linarith
  then have le: "binade x \<le> binade y" using pow2_less_cancel by fastforce
  show ?thesis
  proof (cases "binade x = binade y")
    case True
    define u where "u = pow2 (binade y - 52)"
    have upos: "0 < u" by (simp add: u_def pow2_pos)
    have "x / u \<le> y / u" using assms(2) upos by (simp add: divide_right_mono)
    then have "round_half_even (x / u) \<le> round_half_even (y / u)" by (rule rhe_mono)
    then have "(of_int (round_half_even (x / u)) :: rat) \<le> of_int (round_half_even (y / u))"
      by (simp only: of_int_le_iff)
    then have "of_int (round_half_even (x / u)) * u \<le> of_int (round_half_even (y / u)) * u"
      using upos by (simp only: mult_le_cancel_right_pos)
    then show ?thesis
      using assms(1) ypos True by (simp add: rne_pos_def u_def)
  next
    case False
    with le have "binade x + 1 \<le> binade y" by simp
    then have "pow2 (binade x + 1) \<le> pow2 (binade y)" by (rule pow2_mono)
    with rne_range [OF assms(1)] rne_range [OF ypos] show ?thesis by linarith
  qed
qed

lemma rne_mono: "0 \<le> x \<Longrightarrow> x \<le> y \<Longrightarrow> rne x \<le> rne y"
proof (cases "x = 0")
  case True
  assume "x \<le> y"
  with True have "0 \<le> y" by simp
  then show ?thesis using True by (simp add: rne_zero rne_nonneg)
next
  case False
  assume "0 \<le> x" "x \<le> y"
  with False show ?thesis by (simp add: rne_mono_pos)
qed



lemma nonneg_fl: "0 \<le> x \<Longrightarrow> nonneg (fl x)"
  by (simp add: fl_def Let_def rne_nonneg)

lemma nonneg_dadd: "nonneg a \<Longrightarrow> nonneg b \<Longrightarrow> nonneg (dadd a b)"
  by (cases a; cases b) (simp_all add: nonneg_fl)

lemma nonneg_ddiv: "nonneg a \<Longrightarrow> 0 < b \<Longrightarrow> nonneg (ddiv a b)"
  by (cases a) (simp_all add: nonneg_fl)

lemma nonneg_foldl:
  "nonneg s \<Longrightarrow> nonneg (foldl (\<lambda>s p. dadd s (fl (of_nat (saves p)))) s ps)"
  by (induction ps arbitrary: s) (simp_all add: nonneg_dadd nonneg_fl)

lemma nonneg_avgSaves: "nonneg (avgSaves ps)"
  by (simp add: avgSaves_def sum_saves_def nonneg_ddiv nonneg_foldl)

lemma min1_range: "nonneg d \<Longrightarrow> 0 \<le> min1 d \<and> min1 d \<le> 1"
  by (cases d) simp_all

lemma rne_06: "rne (rne (6 / 10)) = rne (6 / 10)"
  by code_simp

lemma rne_04: "rne (rne (4 / 10)) = rne (4 / 10)"
  by code_simp

lemma rne_06_04: "rne (rne (6 / 10) + rne (4 / 10)) = 1"
  by code_simp

lemma rne_100: "rne 100 = 100"
  by code_simp

lemma rne_scaled:
  assumes "0 \<le> c" "rne c = c" "0 \<le> t" "t \<le> 1"
  shows "0 \<le> rne (c * t) \<and> rne (c * t) \<le> c"
proof -
  have a: "0 \<le> c * t" using assms by simp
  have b: "c * t \<le> c" using assms by (simp add: mult_left_le)
  from rne_nonneg [OF a] rne_mono [OF a b] assms(2) show ?thesis by simp
qed

lemma weighted_range:
  assumes "0 \<le> vol" "vol \<le> 1" "0 \<le> pp" "pp \<le> 1"
  shows "0 \<le> Math_round (rne (rne (rne (rne (6 / 10) * vol) + rne (rne (4 / 10) * pp)) * 100))
       \<and> Math_round (rne (rne (rne (rne (6 / 10) * vol) + rne (rne (4 / 10) * pp)) * 100)) \<le> 100"
proof -
  define a where "a = rne (rne (6 / 10) * vol)"
  define b where "b = rne (rne (4 / 10) * pp)"
  have c6: "(0::rat) \<le> rne (6 / 10)" and c4: "(0::rat) \<le> rne (4 / 10)"
    by (rule rne_nonneg, simp)+
  have a: "0 \<le> a" "a \<le> rne (6 / 10)"
    using rne_scaled [OF c6 rne_06 assms(1,2)] unfolding a_def by blast+
  have b: "0 \<le> b" "b \<le> rne (4 / 10)"
    using rne_scaled [OF c4 rne_04 assms(3,4)] unfolding b_def by blast+
  have s0: "0 \<le> a + b" using a b by simp
  have s1: "a + b \<le> rne (6 / 10) + rne (4 / 10)" using a b by simp
  define s where "s = rne (a + b)"
  have s: "0 \<le> s" "s \<le> 1"
    using rne_nonneg [OF s0] rne_mono [OF s0 s1] unfolding s_def rne_06_04 by blast+
  have t0: "0 \<le> s * 100" and t1: "s * 100 \<le> 100" using s by simp_all
  define r where "r = rne (s * 100)"
  have r: "0 \<le> r" "r \<le> 100"
    using rne_nonneg [OF t0] rne_mono [OF t0 t1] unfolding r_def rne_100 by blast+
  have "0 \<le> Math_round r" using r(1) by (simp add: Math_round_def)
  moreover have "Math_round r \<le> 100"
  proof -
    have "r + 1 / 2 < 101" using r(2) by simp
    then have "\<lfloor>r + 1 / 2\<rfloor> < 101" by (simp add: floor_less_iff)
    then show ?thesis by (simp add: Math_round_def)
  qed
  ultimately show ?thesis unfolding r_def s_def a_def b_def by blast
qed

section \<open>Properties of the deduplication\<close>

lemma findIndex_from_hit:
  "P p \<Longrightarrow> (findIndex_from P k (pre @ p # rest) = k + int (length pre)) = (\<forall>x\<in>set pre. \<not> P x)
    \<and> findIndex_from P k (pre @ p # rest) \<le> k + int (length pre)"
proof (induction pre arbitrary: k)
  case Nil
  then show ?case by simp
next
  case (Cons a pre)
  from Cons.IH [OF Cons.prems, of "k + 1"] show ?case by auto
qed

lemma none_with_key: "(\<forall>x\<in>set xs. \<not> f x = k) = (k \<notin> set (map f xs))"
  by auto

lemma first_seen_cong: "set s1 = set s2 \<Longrightarrow> first_seen s1 ps = first_seen s2 ps"
proof (induction ps arbitrary: s1 s2)
  case Nil
  then show ?case by simp
next
  case (Cons p ps)
  have "first_seen (pinId p # s1) ps = first_seen (pinId p # s2) ps"
    by (rule Cons.IH) (simp add: Cons.prems)
  moreover have "first_seen s1 ps = first_seen s2 ps"
    by (rule Cons.IH) (rule Cons.prems)
  ultimately show ?case using Cons.prems by simp
qed

lemma filter_from_first_seen:
  "filter_from (\<lambda>p i arr. findIndex (\<lambda>x. pinId x = pinId p) arr = i)
     (pre @ ps) (int (length pre)) ps = first_seen (map pinId pre) ps"
proof (induction ps arbitrary: pre)
  case Nil
  then show ?case by simp
next
  case (Cons p ps)
  let ?keep = "\<lambda>p i arr. findIndex (\<lambda>x. pinId x = pinId p) arr = i"
  have "(\<forall>x\<in>set pre. \<not> pinId x = pinId p) = (pinId p \<notin> set (map pinId pre))"
    by (rule none_with_key)
  moreover have "(findIndex (\<lambda>x. pinId x = pinId p) (pre @ p # ps) = int (length pre))
      = (\<forall>x\<in>set pre. \<not> pinId x = pinId p)"
    using findIndex_from_hit [of "\<lambda>x. pinId x = pinId p" p 0 pre ps]
    by (simp add: findIndex_def)
  ultimately
  have keep: "?keep p (int (length pre)) (pre @ p # ps) = (pinId p \<notin> set (map pinId pre))"
    by (simp only:)
  have rest: "filter_from ?keep (pre @ p # ps) (int (length pre) + 1) ps
      = first_seen (map pinId (pre @ [p])) ps"
    using Cons.IH [of "pre @ [p]"] by (simp add: add.commute)
  show ?case
  proof (cases "pinId p \<in> set (map pinId pre)")
    case True
    then have "set (map pinId (pre @ [p])) = set (map pinId pre)" by auto
    then have "first_seen (map pinId (pre @ [p])) ps = first_seen (map pinId pre) ps"
      by (rule first_seen_cong)
    with True keep rest show ?thesis by simp
  next
    case False
    have "set (map pinId (pre @ [p])) = set (pinId p # map pinId pre)" by auto
    then have "first_seen (map pinId (pre @ [p])) ps = first_seen (pinId p # map pinId pre) ps"
      by (rule first_seen_cong)
    with False keep rest show ?thesis by simp
  qed
qed

lemma uniquePins_first_seen: "uniquePins pins = first_seen [] pins"
  using filter_from_first_seen [of "[]" pins]
  by (simp add: uniquePins_def filter_indexed_def)

lemma first_seen_ids:
  "set (map pinId (first_seen seen ps)) = pinId ` set ps - set seen"
  by (induction ps arbitrary: seen) auto

lemma first_seen_distinct: "distinct (map pinId (first_seen seen ps))"
  by (induction ps arbitrary: seen) (auto simp: first_seen_ids simp del: set_map)

lemma first_seen_subseq: "subseq (first_seen seen ps) ps"
  by (induction ps arbitrary: seen) auto

lemma first_seen_find:
  "find (\<lambda>x. pinId x = k) (first_seen seen ps)
     = (if k \<in> set seen then None else find (\<lambda>x. pinId x = k) ps)"
  by (induction ps arbitrary: seen) auto

lemma first_seen_fixed:
  "distinct (map pinId xs) \<Longrightarrow> set (map pinId xs) \<inter> set seen = {} \<Longrightarrow> first_seen seen xs = xs"
  by (induction xs arbitrary: seen) auto

lemma first_seen_filter:
  "first_seen seen ps = filter (\<lambda>x. pinId x \<notin> set seen) (first_seen [] ps)"
proof (induction ps arbitrary: seen)
  case Nil
  then show ?case by simp
next
  case (Cons p ps)
  have a: "first_seen (pinId p # seen) ps
      = filter (\<lambda>x. pinId x \<notin> set (pinId p # seen)) (first_seen [] ps)"
    by (rule Cons.IH)
  have b: "first_seen [pinId p] ps = filter (\<lambda>x. pinId x \<notin> set [pinId p]) (first_seen [] ps)"
    by (rule Cons.IH)
  have c: "first_seen seen ps = filter (\<lambda>x. pinId x \<notin> set seen) (first_seen [] ps)"
    by (rule Cons.IH)
  show ?case
  proof (cases "pinId p \<in> set seen")
    case True
    have "filter (\<lambda>x. pinId x \<notin> set seen) (filter (\<lambda>x. pinId x \<notin> set [pinId p]) (first_seen [] ps))
        = filter (\<lambda>x. pinId x \<notin> set seen) (first_seen [] ps)"
      using True by (auto intro: filter_cong)
    with True b c show ?thesis by simp
  next
    case False
    have "filter (\<lambda>x. pinId x \<notin> set seen) (filter (\<lambda>x. pinId x \<notin> set [pinId p]) (first_seen [] ps))
        = filter (\<lambda>x. pinId x \<notin> set (pinId p # seen)) (first_seen [] ps)"
      by (auto intro: filter_cong)
    with False a b show ?thesis by simp
  qed
qed

lemma uniquePins_Cons:
  "uniquePins (p # ps) = p # filter (\<lambda>x. pinId x \<noteq> pinId p) (uniquePins ps)"
  using first_seen_filter [of "[pinId p]" ps] by (simp add: uniquePins_first_seen)

lemma remdups_snoc: "remdups (ys @ [a]) = filter (\<lambda>y. y \<noteq> a) (remdups ys) @ [a]"
  by (induction ys) auto

lemma first_ids_Cons:
  "rev (remdups (rev (a # xs))) = a # filter (\<lambda>y. y \<noteq> a) (rev (remdups (rev xs)))"
  by (simp add: remdups_snoc rev_filter)

lemma uniquePins_id_order:
  "map pinId (uniquePins pins) = rev (remdups (rev (map pinId pins)))"
proof (induction pins)
  case Nil
  then show ?case by (simp add: uniquePins_first_seen)
next
  case (Cons p ps)
  have "map pinId (uniquePins (p # ps))
      = pinId p # filter (\<lambda>y. y \<noteq> pinId p) (map pinId (uniquePins ps))"
    by (simp add: uniquePins_Cons filter_map comp_def)
  also have "\<dots> = pinId p # filter (\<lambda>y. y \<noteq> pinId p) (rev (remdups (rev (map pinId ps))))"
    by (simp only: Cons.IH)
  also have "\<dots> = rev (remdups (rev (map pinId (p # ps))))"
    using first_ids_Cons [of "pinId p" "map pinId ps"] by simp
  finally show ?case .
qed

section \<open>The shape of a run\<close>

lemma all_ok_append: "all_ok (xs @ ys) = (all_ok xs \<and> all_ok ys)"
  by (simp add: all_ok_def)

lemma shape_append: "all_ok xs \<Longrightarrow> shape ys r \<Longrightarrow> shape (xs @ ys) r"
proof (cases r)
  case (Inl e)
  assume "all_ok xs" "shape ys r"
  with Inl obtain pre a where "ys = pre @ [(a, Some e)]" "all_ok pre" by auto
  then have "xs @ ys = (xs @ pre) @ [(a, Some e)] \<and> all_ok (xs @ pre)"
    using \<open>all_ok xs\<close> by (simp add: all_ok_append)
  then show ?thesis using Inl by (metis shape.simps(2))
next
  case (Inr x)
  assume "all_ok xs" "shape ys r"
  with Inr show ?thesis by (simp add: all_ok_append)
qed

lemma steps_act: "P a \<Longrightarrow> steps P (act env a) w"
  by (cases "outcome env (trace w) a") (simp_all add: steps_def act_def Let_def all_ok_def)

lemma steps_return: "steps P (\<lambda>w. (Inr x, w)) w"
  by (simp add: steps_def all_ok_def)

lemma steps_return_of: "steps P (\<lambda>w. (Inr (g w), w)) w"
  by (simp add: steps_def all_ok_def)

lemma steps_await:
  assumes m: "steps P m w" and f: "\<And>x w1. m w = (Inr x, w1) \<Longrightarrow> steps P (f x) w1"
  shows "steps P (await m f) w"
proof (cases "m w")
  case (Pair r1 w1)
  from m Pair obtain evs1 where 1: "cache w1 = cache w" "trace w1 = trace w @ evs1"
    "shape evs1 r1" "list_all (\<lambda>ev. P (fst ev)) evs1"
    by (auto simp: steps_def)
  show ?thesis
  proof (cases r1)
    case (Inl e)
    with Pair 1 show ?thesis by (auto simp: steps_def await_def)
  next
    case (Inr x)
    from f [of x w1] Pair Inr obtain evs2 where 2: "cache (snd (f x w1)) = cache w1"
      "trace (snd (f x w1)) = trace w1 @ evs2" "shape evs2 (fst (f x w1))"
      "list_all (\<lambda>ev. P (fst ev)) evs2"
      by (auto simp: steps_def)
    have aw: "await m f w = f x w1" using Pair Inr by (simp add: await_def)
    have "shape (evs1 @ evs2) (fst (f x w1))"
      using 1(3) 2(3) Inr by (simp add: shape_append)
    moreover have "trace (snd (f x w1)) = trace w @ (evs1 @ evs2)" using 1(2) 2(2) by simp
    moreover have "list_all (\<lambda>ev. P (fst ev)) (evs1 @ evs2)" using 1(4) 2(4) by simp
    ultimately show ?thesis unfolding steps_def aw using 1(1) 2(1) by metis
  qed
qed


lemma steps_scroll_loop:
  "P ScrollToBottom \<Longrightarrow> (\<And>n. P (WaitForTimeout n)) \<Longrightarrow> steps P (scroll_loop env scrolls i) w"
proof (induction env scrolls i w rule: scroll_loop.induct)
  case (1 env scrolls i w)
  show ?case
  proof (cases "js_less (Num i) scrolls")
    case False
    then have "scroll_loop env scrolls i w = (Inr (), w)" by (simp add: scroll_loop.simps)
    then show ?thesis by (simp add: steps_def all_ok_def)
  next
    case True
    let ?wait = "\<lambda>w1. act env (WaitForTimeout (1500 + random_draw env (trace w1) mod 1000)) w1"
    let ?rest = "\<lambda>(_::unit). await ?wait (\<lambda>(_::unit). scroll_loop env scrolls (i + 1))"
    have eq: "scroll_loop env scrolls i w = await (act env ScrollToBottom) ?rest w"
      using True by (subst scroll_loop.simps) (simp add: await_def split: prod.splits sum.splits)
    have "steps P (await (act env ScrollToBottom) ?rest) w"
    proof (rule steps_await)
      show "steps P (act env ScrollToBottom) w" using "1.prems"(1) by (rule steps_act)
    next
      fix x w1
      assume a1: "act env ScrollToBottom w = (Inr x, w1)"
      show "steps P (await ?wait (\<lambda>(_::unit). scroll_loop env scrolls (i + 1))) w1"
      proof (rule steps_await)
        show "steps P ?wait w1"
          using steps_act [of P "WaitForTimeout (1500 + random_draw env (trace w1) mod 1000)" env w1]
            "1.prems"(2) by (simp add: steps_def)
      next
        fix y w2
        assume a2: "?wait w1 = (Inr y, w2)"
        show "steps P (scroll_loop env scrolls (i + 1)) w2"
          using "1.IH" [OF True a1 [symmetric] refl a2 [symmetric] refl] "1.prems" by blast
      qed
    qed
    then show ?thesis unfolding steps_def eq .
  qed
qed


lemma steps_scroll_body: "steps (body_action scrolls) (scroll_loop env scrolls i) w"
proof (cases scrolls)
  case NaN
  then have "scroll_loop env scrolls i w = (Inr (), w)" by (simp add: scroll_loop.simps)
  then show ?thesis by (simp add: steps_def all_ok_def)
next
  case (Num n)
  then show ?thesis by (intro steps_scroll_loop) simp_all
qed

lemma steps_login: "steps (body_action scrolls) (login_steps env login) w"
  unfolding login_steps_def
  by (auto intro!: steps_await steps_act steps_return)

lemma steps_evaluate_pins: "steps (body_action scrolls) (evaluate_pins env) w"
proof -
  have "evaluate_pins env = await (act env ExtractPins) (\<lambda>_ w'. (Inr (page_pins env (butlast (trace w'))), w'))"
    by (rule ext) (auto simp: evaluate_pins_def await_def act_def Let_def split: option.splits)
  then show ?thesis
    by (auto intro!: steps_await steps_act steps_return_of)
qed

lemma steps_scrape: "steps (body_action scrolls) (scrape env q scrolls login) w"
  unfolding scrape_def
  by (intro steps_await steps_login steps_act steps_scroll_body steps_evaluate_pins) simp

lemma scrape_pins:
  "scrape env q scrolls login w = (Inr pins, w1) \<Longrightarrow> \<exists>h. pins = page_pins env h"
  by (auto simp: scrape_def await_def evaluate_pins_def split: prod.splits sum.splits)


lemma cleanup_shape:
  "cache (snd (cleanup env w)) = cache w
   \<and> (\<exists>fin. trace (snd (cleanup env w)) = trace w @ fin \<and> fin_shape fin (fst (cleanup env w)))"
  by (auto simp: cleanup_def await_def act_def Let_def fin_shape_def split: option.splits)

lemma guarded_run:
  assumes run: "try_finally (await (scrape env q scrolls login) (store_and_return key q))
                  (cleanup env) w0 = (r, w')"
  shows "\<exists>body rb fin rf.
           trace w' = trace w0 @ body @ fin
           \<and> shape body rb \<and> list_all (\<lambda>ev. body_action scrolls (fst ev)) body
           \<and> fin_shape fin rf \<and> r = settle rf rb q
           \<and> (case rb of
                 Inl e \<Rightarrow> cache w' = cache w0
               | Inr pins \<Rightarrow> (\<exists>t. cache w' = cache_set (cache w0) t key (assemble q pins))
                              \<and> (\<exists>h. pins = page_pins env h))"
proof -
  obtain rb w1 where sc: "scrape env q scrolls login w0 = (rb, w1)" by fastforce
  from steps_scrape [of scrolls env q login w0] sc
  obtain body where b: "cache w1 = cache w0" "trace w1 = trace w0 @ body" "shape body rb"
    "list_all (\<lambda>ev. body_action scrolls (fst ev)) body"
    by (auto simp: steps_def)
  obtain r1 w2 where bd: "await (scrape env q scrolls login) (store_and_return key q) w0 = (r1, w2)"
    by fastforce
  have w2: "trace w2 = trace w1" "r1 = (case rb of Inl e \<Rightarrow> Inl e | Inr pins \<Rightarrow> Inr (Some (assemble q pins)))"
    "case rb of Inl e \<Rightarrow> cache w2 = cache w1
       | Inr pins \<Rightarrow> cache w2 = cache_set (cache w1) (now w1) key (assemble q pins)"
    using bd sc by (auto simp: await_def store_and_return_def Let_def split: sum.splits)
  from cleanup_shape [of env w2]
  obtain fin where f: "cache (snd (cleanup env w2)) = cache w2"
    "trace (snd (cleanup env w2)) = trace w2 @ fin" "fin_shape fin (fst (cleanup env w2))"
    by blast
  have res: "w' = snd (cleanup env w2)" "r = (case fst (cleanup env w2) of Inl e \<Rightarrow> Inl e | Inr _ \<Rightarrow> r1)"
    using run bd by (auto simp: try_finally_def split: prod.splits sum.splits)
  have 1: "trace w' = trace w0 @ body @ fin" using res(1) f(2) w2(1) b(2) by simp
  have 2: "r = settle (fst (cleanup env w2)) rb q"
    using res(2) w2(2) by (simp add: settle_def split: sum.splits)
  have 3: "case rb of
             Inl e \<Rightarrow> cache w' = cache w0
           | Inr pins \<Rightarrow> (\<exists>t. cache w' = cache_set (cache w0) t key (assemble q pins))
                          \<and> (\<exists>h. pins = page_pins env h)"
  proof (cases rb)
    case (Inl e)
    then show ?thesis using w2(3) f(1) res(1) b(1) by simp
  next
    case (Inr pins)
    with sc have "\<exists>h. pins = page_pins env h" using scrape_pins by blast
    moreover have "cache w' = cache_set (cache w0) (now w1) key (assemble q pins)"
      using Inr w2(3) f(1) res(1) b(1) by simp
    ultimately show ?thesis using Inr by auto
  qed
  from 1 b(3) b(4) f(3) 2 3 show ?thesis by blast
qed

lemma act_cases:
  "act env a w = (r, w1) \<Longrightarrow>
     cache w1 = cache w
     \<and> ((\<exists>e. r = Inl e \<and> trace w1 = trace w @ [(a, Some e)])
        \<or> (r = Inr () \<and> trace w1 = trace w @ [(a, None)]))"
  by (auto simp: act_def Let_def split: option.splits)

lemma getBrowser_cases:
  "getBrowser env w = (r, w1) \<Longrightarrow>
     cache w1 = cache w
     \<and> ((\<exists>e. r = Inl e \<and> trace w1 = trace w @ [(Launch, Some e)])
        \<or> (r = Inr () \<and> (trace w1 = trace w \<or> trace w1 = trace w @ [(Launch, None)])))"
  by (auto simp: getBrowser_def await_def act_def Let_def split: if_splits option.splits)

lemma early_intro:
  assumes "r = Inl e" "trace w' = trace w @ pre @ [(a, Some e)]" "all_ok pre"
    "list_all (\<lambda>ev. acquisition (fst ev)) pre" "acquisition a" "(NewPage, None) \<notin> set pre"
    "cache w' = cache w"
  shows "\<exists>e pre. r = Inl e \<and> trace w' = trace w @ pre \<and> shape pre (Inl e :: error + unit)
            \<and> list_all (\<lambda>ev. acquisition (fst ev)) pre \<and> (NewPage, None) \<notin> set pre
            \<and> cache w' = cache w"
proof -
  have "shape (pre @ [(a, Some e)]) (Inl e :: error + unit)" using assms(3) by auto
  moreover have "list_all (\<lambda>ev. acquisition (fst ev)) (pre @ [(a, Some e)])"
    using assms(4,5) by simp
  moreover have "(NewPage, None) \<notin> set (pre @ [(a, Some e)])" using assms(6) by simp
  ultimately show ?thesis using assms(1,2,7) by blast
qed

lemma acquire_run:
  assumes run: "await (getBrowser env) (\<lambda>_. await (act env NewContext) (\<lambda>_.
             await (act env NewPage) (\<lambda>_. G))) w = (r, w')"
  shows "(\<exists>e pre. r = Inl e \<and> trace w' = trace w @ pre \<and> shape pre (Inl e :: error + unit)
            \<and> list_all (\<lambda>ev. acquisition (fst ev)) pre \<and> (NewPage, None) \<notin> set pre
            \<and> cache w' = cache w)
       \<or> (\<exists>pre w0. all_ok pre \<and> list_all (\<lambda>ev. acquisition (fst ev)) pre
            \<and> trace w0 = trace w @ pre @ [(NewPage, None)] \<and> cache w0 = cache w
            \<and> G w0 = (r, w'))"
proof -
  obtain rg w1 where g: "getBrowser env w = (rg, w1)" by fastforce
  note g1 = getBrowser_cases [OF g]
  show ?thesis
  proof (cases rg)
    case (Inl e)
    with g g1 run have "r = Inl e" "w' = w1" "trace w1 = trace w @ [] @ [(Launch, Some e)]"
      by (auto simp: await_def)
    then show ?thesis
      using g1 early_intro [of r e w' w "[]" Launch] by (simp add: all_ok_def)
  next
    case (Inr u)
    with g1 obtain pre0 where p0: "trace w1 = trace w @ pre0" "all_ok pre0"
      "list_all (\<lambda>ev. acquisition (fst ev)) pre0" "(NewPage, None) \<notin> set pre0"
      by (cases "trace w1 = trace w") (auto simp: all_ok_def)
    obtain rc w2 where c: "act env NewContext w1 = (rc, w2)" by fastforce
    note c1 = act_cases [OF c]
    have run2: "await (act env NewContext) (\<lambda>_. await (act env NewPage) (\<lambda>_. G)) w1 = (r, w')"
      using run g Inr by (simp add: await_def)
    show ?thesis
    proof (cases rc)
      case (Inl e)
      with c c1 run2 have "r = Inl e" "w' = w2" "trace w2 = trace w @ pre0 @ [(NewContext, Some e)]"
        using p0(1) by (auto simp: await_def)
      then show ?thesis
        using g1 c1 p0 early_intro [of r e w' w pre0 NewContext] by simp
    next
      case (Inr u2)
      with c1 have t2: "trace w2 = trace w @ pre0 @ [(NewContext, None)]" using p0(1) by auto
      obtain rp w3 where pg: "act env NewPage w2 = (rp, w3)" by fastforce
      note pg1 = act_cases [OF pg]
      have run3: "await (act env NewPage) (\<lambda>_. G) w2 = (r, w')"
        using run2 c Inr by (simp add: await_def)
      let ?pre = "pre0 @ [(NewContext, None)]"
      have pre: "all_ok ?pre" "list_all (\<lambda>ev. acquisition (fst ev)) ?pre"
        "(NewPage, None) \<notin> set ?pre"
        using p0 by (simp_all add: all_ok_def)
      show ?thesis
      proof (cases rp)
        case (Inl e)
        with pg pg1 run3 have "r = Inl e" "w' = w3" "trace w3 = trace w @ ?pre @ [(NewPage, Some e)]"
          using t2 by (auto simp: await_def)
        then show ?thesis
          using g1 c1 pg1 pre early_intro [of r e w' w ?pre NewPage] by simp
      next
        case (Inr u3)
        with pg1 have "trace w3 = trace w @ ?pre @ [(NewPage, None)]" using t2 by auto
        moreover have "cache w3 = cache w" using g1 c1 pg1 by simp
        moreover have "G w3 = (r, w')" using run3 pg Inr by (simp add: await_def)
        ultimately show ?thesis using pre by blast
      qed
    qed
  qed
qed

lemma miss_run:
  assumes miss: "\<not> cache_has (cache w) (now w) (cacheKey q scrolls login)"
    and run: "pinterestSearch env q scrolls login w = (r, w')"
  shows "(\<exists>e pre. r = Inl e \<and> events_since w w' = pre \<and> shape pre (Inl e :: error + unit)
            \<and> list_all (\<lambda>ev. acquisition (fst ev)) pre \<and> (NewPage, None) \<notin> set pre
            \<and> cache w' = cache w)
       \<or> (\<exists>pre body rb fin rf.
            events_since w w' = pre @ [(NewPage, None)] @ body @ fin
            \<and> all_ok pre \<and> list_all (\<lambda>ev. acquisition (fst ev)) pre
            \<and> shape body rb \<and> list_all (\<lambda>ev. body_action scrolls (fst ev)) body
            \<and> fin_shape fin rf \<and> r = settle rf rb q
            \<and> (case rb of
                  Inl e \<Rightarrow> cache w' = cache w
                | Inr pins \<Rightarrow>
                    (\<exists>t. cache w' = cache_set (cache w) t (cacheKey q scrolls login) (assemble q pins))
                    \<and> (\<exists>h. pins = page_pins env h)))"
proof -
  let ?G = "try_finally (await (scrape env q scrolls login)
              (store_and_return (cacheKey q scrolls login) q)) (cleanup env)"
  have "await (getBrowser env) (\<lambda>_. await (act env NewContext) (\<lambda>_.
          await (act env NewPage) (\<lambda>_. ?G))) w = (r, w')"
    using miss run by (simp add: pinterestSearch_def)
  from acquire_run [OF this] show ?thesis
  proof (elim disjE exE conjE)
    fix e pre
    assume "r = Inl e" "trace w' = trace w @ pre" "shape pre (Inl e :: error + unit)"
      "list_all (\<lambda>ev. acquisition (fst ev)) pre" "(NewPage, None) \<notin> set pre" "cache w' = cache w"
    then show ?thesis by (auto simp: events_since_def)
  next
    fix pre w0
    assume a: "all_ok pre" "list_all (\<lambda>ev. acquisition (fst ev)) pre"
      "trace w0 = trace w @ pre @ [(NewPage, None)]" "cache w0 = cache w" "?G w0 = (r, w')"
    from guarded_run [OF a(5)] obtain body rb fin rf where
      g: "trace w' = trace w0 @ body @ fin" "shape body rb"
        "list_all (\<lambda>ev. body_action scrolls (fst ev)) body" "fin_shape fin rf" "r = settle rf rb q"
        "case rb of
           Inl e \<Rightarrow> cache w' = cache w0
         | Inr pins \<Rightarrow>
             (\<exists>t. cache w' = cache_set (cache w0) t (cacheKey q scrolls login) (assemble q pins))
             \<and> (\<exists>h. pins = page_pins env h)"
      by blast
    have "events_since w w' = pre @ [(NewPage, None)] @ body @ fin"
      using g(1) a(3) by (simp add: events_since_def)
    with a(1,2) g(2-6) show ?thesis unfolding a(4) by blast
  qed
qed

lemma no_retry_append:
  "no_retry (xs @ ys) =
     (no_retry xs \<and> no_retry ys \<and> (\<forall>ev\<in>set xs. snd ev = None \<or> fst ev \<notin> fst ` set ys))"
  by (induction xs) auto

lemma no_retry_all_ok: "all_ok evs \<Longrightarrow> no_retry evs"
  by (induction evs) (auto simp: all_ok_def)

lemma no_retry_shape: "shape evs r \<Longrightarrow> no_retry evs"
  by (cases r) (auto simp: no_retry_append no_retry_all_ok all_ok_def list_all_iff)

lemma no_retry_fin: "fin_shape fin rf \<Longrightarrow> no_retry fin"
  by (auto simp: fin_shape_def)

lemma fin_actions: "fin_shape fin rf \<Longrightarrow> fst ` set fin \<subseteq> {ClosePage, CloseContext}"
  by (auto simp: fin_shape_def)

lemma body_not_close:
  "list_all (\<lambda>ev. body_action scrolls (fst ev)) body \<Longrightarrow>
     ClosePage \<notin> fst ` set body \<and> CloseContext \<notin> fst ` set body \<and> NewPage \<notin> fst ` set body"
  by (auto simp: list_all_iff)

lemma acq_not_close:
  "list_all (\<lambda>ev. acquisition (fst ev)) pre \<Longrightarrow>
     ClosePage \<notin> fst ` set pre \<and> CloseContext \<notin> fst ` set pre \<and> ScrollToBottom \<notin> fst ` set pre"
  by (auto simp: list_all_iff)

lemma all_ok_no_failure: "all_ok evs \<Longrightarrow> (a, Some e) \<notin> set evs"
  by (auto simp: all_ok_def list_all_iff)

lemma shape_failure:
  assumes "shape evs r" "(a, Some e) \<in> set evs"
  shows "r = Inl e \<and> (\<exists>pre. evs = pre @ [(a, Some e)] \<and> all_ok pre)"
proof (cases r)
  case (Inr x)
  with assms show ?thesis using all_ok_no_failure by auto
next
  case (Inl e0)
  with assms(1) obtain pre a0 where p: "evs = pre @ [(a0, Some e0)]" "all_ok pre" by auto
  with assms(2) all_ok_no_failure [OF p(2), of a e] have "a = a0 \<and> e = e0" by simp
  with p Inl show ?thesis by simp
qed

lemma fin_result:
  assumes "fin_shape fin rf"
  shows "(rf = Inr () \<and> (\<forall>x. (ClosePage, Some x) \<notin> set fin \<and> (CloseContext, Some x) \<notin> set fin))
       \<or> (\<exists>x c. rf = Inl x \<and> (c, Some x) \<in> set fin \<and> c \<in> {ClosePage, CloseContext})"
  using assms by (auto simp: fin_shape_def)

lemma settle_success:
  "settle rf rb q = Inr v \<Longrightarrow> \<exists>pins. rf = Inr () \<and> rb = Inr pins \<and> v = Some (assemble q pins)"
  by (auto simp: settle_def split: sum.splits)

lemma assemble_fields:
  "query (assemble q pins) = q"
  "loadedPins (assemble q pins) = length (uniquePins pins)"
  "sample (assemble q pins) = take 50 (uniquePins pins)"
  "keywordDifficulty (assemble q pins) = computeKD (uniquePins pins) (length (uniquePins pins))"
  "lowCompetition (assemble q pins) = (keywordDifficulty (assemble q pins) \<le> 35)"
  by (simp_all add: assemble_def Let_def)

lemma sample_distinct: "distinct (map pinId (take 50 (uniquePins pins)))"
  using first_seen_distinct [of "[]" pins]
  by (simp add: uniquePins_first_seen take_map [symmetric])

lemma hit_run:
  assumes "cache_has (cache w) (now w) (cacheKey q scrolls login)"
  shows "\<exists>v start. map_of (cache w) (cacheKey q scrolls login) = Some (v, start)
           \<and> now w \<le> start + ttl
           \<and> pinterestSearch env q scrolls login w
               = (Inr (Some v),
                  w\<lparr>cache := (cacheKey q scrolls login, v, start)
                       # filter (\<lambda>e. fst e \<noteq> cacheKey q scrolls login) (cache w)\<rparr>)"
  using assms
  by (auto simp: pinterestSearch_def cache_has_def cache_get_def split: option.splits)

lemma no_scroll_iterations:
  "(\<And>ev. ev \<in> set evs \<Longrightarrow> fst ev \<noteq> ScrollToBottom) \<Longrightarrow> iterations evs = 0"
  by (simp add: iterations_def filter_empty_conv)

lemma NaN_run_iterations:
  "iterations (events_since w (snd (pinterestSearch env q NaN login w))) = 0"
proof (cases "cache_has (cache w) (now w) (cacheKey q NaN login)")
  case True
  from hit_run [OF True, of env] show ?thesis
    by (auto simp: events_since_def iterations_def)
next
  case False
  obtain r w' where run: "pinterestSearch env q NaN login w = (r, w')" by fastforce
  have "iterations (events_since w w') = 0"
    using miss_run [OF False run]
  proof (elim disjE exE conjE)
    fix e pre
    assume a: "events_since w w' = pre" "list_all (\<lambda>ev. acquisition (fst ev)) pre"
    show ?thesis unfolding a(1)
      by (rule no_scroll_iterations) (use a(2) in \<open>auto simp: list_all_iff\<close>)
  next
    fix pre body rb fin rf
    assume a: "events_since w w' = pre @ [(NewPage, None)] @ body @ fin"
      "list_all (\<lambda>ev. acquisition (fst ev)) pre"
      "list_all (\<lambda>ev. body_action NaN (fst ev)) body" "fin_shape fin rf"
    have 1: "\<And>ev. ev \<in> set pre \<Longrightarrow> fst ev \<noteq> ScrollToBottom"
      using a(2) by (auto simp: list_all_iff)
    have 2: "\<And>ev. ev \<in> set body \<Longrightarrow> fst ev \<noteq> ScrollToBottom"
      using a(3) by (auto simp: list_all_iff)
    have 3: "\<And>ev. ev \<in> set fin \<Longrightarrow> fst ev \<noteq> ScrollToBottom"
      using fin_actions [OF a(4)] by auto
    show ?thesis unfolding a(1)
      by (rule no_scroll_iterations) (use 1 2 3 in auto)
  qed
  then show ?thesis by (simp add: run)
qed

text \<open>
  Once the page is acquired, closing it is always attempted, and closing the context is
  attempted when closing the page succeeded.
\<close>

lemma closes_after_page:
  assumes miss: "\<not> cache_has (cache w) (now w) (cacheKey q scrolls login)"
    and run: "pinterestSearch env q scrolls login w = (r, w')"
    and page: "(NewPage, None) \<in> set (events_since w w')"
  shows "(\<exists>rp. (ClosePage, rp) \<in> set (events_since w w'))
       \<and> ((ClosePage, None) \<in> set (events_since w w')
            \<longrightarrow> (\<exists>rc. (CloseContext, rc) \<in> set (events_since w w')))"
  using miss_run [OF miss run]
proof (elim disjE exE conjE)
  fix e pre
  assume "events_since w w' = pre" "(NewPage, None) \<notin> set pre"
  with page show ?thesis by simp
next
  fix pre body rb fin rf
  assume a: "events_since w w' = pre @ [(NewPage, None)] @ body @ fin"
    "list_all (\<lambda>ev. acquisition (fst ev)) pre"
    "list_all (\<lambda>ev. body_action scrolls (fst ev)) body" "fin_shape fin rf"
  have 1: "\<exists>rp. (ClosePage, rp) \<in> set fin" using a(4) by (auto simp: fin_shape_def)
  have 2: "(ClosePage, None) \<in> set fin \<longrightarrow> (\<exists>rc. (CloseContext, rc) \<in> set fin)"
    using a(4) by (auto simp: fin_shape_def)
  have 3: "(ClosePage, None) \<notin> set pre" "(ClosePage, None) \<notin> set body"
    using acq_not_close [OF a(2)] body_not_close [OF a(3)] by (simp_all add: image_iff) force+
  have mem: "\<And>ev. ev \<in> set fin \<Longrightarrow> ev \<in> set (events_since w w')"
    unfolding a(1) by simp
  have "(ClosePage, None) \<in> set (events_since w w') \<Longrightarrow> (ClosePage, None) \<in> set fin"
    unfolding a(1) using 3 by simp
  with 1 2 mem show ?thesis by blast
qed

section \<open>Evaluating the rounding\<close>

lemma binade_unique:
  assumes "pow2 e \<le> x" "x < pow2 (e + 1)"
  shows "binade x = e"
proof -
  have xpos: "0 < x" using assms(1) pow2_pos [of e] by linarith
  from binade_bounds [OF xpos] assms
  have "pow2 (binade x) < pow2 (e + 1)" "pow2 e < pow2 (binade x + 1)" by linarith+
  then have "binade x < e + 1" "e < binade x + 1" using pow2_less_cancel by blast+
  then show ?thesis by simp
qed

lemma rne_at:
  assumes "pow2 e \<le> x" "x < pow2 (e + 1)"
  shows "rne x = of_int (round_half_even (x / pow2 (e - 52))) * pow2 (e - 52)"
proof -
  have xpos: "0 < x" using assms(1) pow2_pos [of e] by linarith
  show ?thesis using rne_pos_def [OF xpos] binade_unique [OF assms] by simp
qed

lemma fl_small:
  assumes "0 \<le> x" "x < 2 ^ 1023"
  shows "fl x = Fin (rne x)"
proof (cases "x = 0")
  case True
  then show ?thesis by (simp add: fl_def rne_zero)
next
  case False
  with assms have xpos: "0 < x" by simp
  have p: "pow2 1023 = 2 ^ 1023" using pow2_nat [of 1023] by simp
  from binade_bounds [OF xpos] assms(2) have "pow2 (binade x) < pow2 1023"
    unfolding p by linarith
  then have "binade x + 1 \<le> 1023" using pow2_less_cancel by fastforce
  then have "pow2 (binade x + 1) \<le> pow2 1023" by (rule pow2_mono)
  with rne_range [OF xpos] have "rne x \<le> 2 ^ 1023" unfolding p by linarith
  moreover have "(2::rat) ^ 1023 < 2 ^ 1024" by simp
  ultimately have "rne x < 2 ^ 1024" by linarith
  then show ?thesis by (simp add: fl_def Let_def)
qed

lemma floor_rat_numeral: "\<lfloor>(numeral a :: rat) / numeral b\<rfloor> = numeral a div numeral b"
  using floor_divide_of_int_eq [of "numeral a" "numeral b", where ?'a = rat] by simp

lemmas rne_eval = pow2_def round_half_even_def Let_def floor_rat_numeral

lemma rne_50: "rne 50 = 50"
  by (subst rne_at [of 5]) (simp_all add: rne_eval)

lemma rne_75: "rne 75 = 75"
  by (subst rne_at [of 6]) (simp_all add: rne_eval)

lemma rne_hundred: "rne 100 = 100"
  by (subst rne_at [of 6]) (simp_all add: rne_eval)

lemma rne_150: "rne 150 = 150"
  by (subst rne_at [of 7]) (simp_all add: rne_eval)

lemma rne_pop: "rne (3 / 20) = 5404319552844595 / 36028797018963968"
  by (subst rne_at [of "- 3"]) (simp_all add: rne_eval)

lemma rne_vol: "rne (1 / 500) = 1152921504606847 / 576460752303423488"
  by (subst rne_at [of "- 9"]) (simp_all add: rne_eval)

lemma avgSaves_scenario: "avgSaves [pin_A, pin_B] = Fin 75"
  by (simp add: avgSaves_def sum_saves_def pin_A_def pin_B_def fl_small
      rne_50 rne_75 rne_hundred rne_150)

lemma pop_scenario:
  "min1 (ddiv (avgSaves (take 20 [pin_A, pin_B])) 500) = 5404319552844595 / 36028797018963968"
  by (simp add: avgSaves_scenario fl_small rne_pop)

lemma vol_scenario:
  "min1 (fl (of_nat 2 / 1000)) = 1152921504606847 / 576460752303423488"
  by (simp add: fl_small rne_vol)

lemma weight_06: "rne (6 / 10) = 5404319552844595 / 9007199254740992"
  by (subst rne_at [of "- 1"]) (simp_all add: rne_eval)

lemma weight_04: "rne (4 / 10) = 3602879701896397 / 9007199254740992"
  by (subst rne_at [of "- 2"]) (simp_all add: rne_eval)

lemma term_vol:
  "rne (5404319552844595 / 9007199254740992 * (1152921504606847 / 576460752303423488))
     = 5534023222112865 / 4611686018427387904"
  by (subst rne_at [of "- 10"]) (simp_all add: rne_eval)

lemma term_pop:
  "rne (3602879701896397 / 9007199254740992 * (5404319552844595 / 36028797018963968))
     = 1080863910568919 / 18014398509481984"
  by (subst rne_at [of "- 5"]) (simp_all add: rne_eval)

lemma term_sum:
  "rne (5534023222112865 / 4611686018427387904 + 1080863910568919 / 18014398509481984)
     = 8819849510242379 / 144115188075855872"
  by (subst rne_at [of "- 5"]) (simp_all add: rne_eval)

lemma term_scaled:
  "rne (8819849510242379 / 144115188075855872 * 100) = 6890507429876859 / 1125899906842624"
  by (subst rne_at [of 2]) (simp_all add: rne_eval)

lemma term_round: "Math_round (6890507429876859 / 1125899906842624) = 6"
  by (simp add: Math_round_def floor_rat_numeral)

lemma computeKD_scenario: "computeKD [pin_A, pin_B] 2 = 6"
  unfolding computeKD_def Let_def pop_scenario vol_scenario weight_06 weight_04
    term_vol term_pop term_sum term_scaled
  by (rule term_round)

lemma uniquePins_scenario: "uniquePins [pin_A, pin_B, pin_A] = [pin_A, pin_B]"
  by (simp add: uniquePins_def filter_indexed_def findIndex_def pin_A_def pin_B_def)

lemma assemble_scenario:
  "assemble q [pin_A, pin_B, pin_A]
     = \<lparr>query = q, loadedPins = 2, keywordDifficulty = 6, lowCompetition = True,
        sample = [pin_A, pin_B]\<rparr>"
proof -
  have l: "length [pin_A, pin_B] = 2" by simp
  show ?thesis
    unfolding assemble_def Let_def uniquePins_scenario l computeKD_scenario by simp
qed

lemma char_of_digits:
  "char_of (48 :: nat) = CHR ''0''" "char_of (50 :: nat) = CHR ''2''"
  "char_of (51 :: nat) = CHR ''3''"
  by code_simp+

lemmas run_defs = char_of_digits pinterestSearch_def await_def try_finally_def getBrowser_def act_def
  scrape_def login_steps_def evaluate_pins_def store_and_return_def cleanup_def cacheKey_def
  cache_has_def cache_set_def max_entries_def encodeURIComponent_def unreserved_def
  hex_digit_def digits_of.simps scroll_loop.simps failing_def world0_def mugs_url_def Let_def

lemma calm_run:
  "pinterestSearch (failing []) ''ceramic mugs'' (Num 2) False world0
     = (Inr (Some (assemble ''ceramic mugs'' [pin_A, pin_B, pin_A])),
        \<lparr>cache = [(''ceramic mugs|2|false'', assemble ''ceramic mugs'' [pin_A, pin_B, pin_A], 900)],
         browser = True,
         trace = [(Launch, None), (NewContext, None), (NewPage, None), (Goto mugs_url, None),
                  (ScrollToBottom, None), (WaitForTimeout 1750, None),
                  (ScrollToBottom, None), (WaitForTimeout 1750, None),
                  (ExtractPins, None), (ClosePage, None), (CloseContext, None)],
         now = 1100\<rparr>)"
  by (simp add: run_defs)

section \<open>The scenario runs\<close>

lemmas api_defs = api_pinterest_def trim_def text_of_def ascii_space_def three_byte_space_def
  drop_space.simps scrolls_param_def
  parseInt10_def is_digit_def digit_value_def

lemma close_failure_run:
  "pinterestSearch (failing [(ClosePage, Error ''Target closed'')]) ''ceramic mugs'' (Num 2) False world0
     = (Inl (Error ''Target closed''),
        \<lparr>cache = [(''ceramic mugs|2|false'', assemble ''ceramic mugs'' [pin_A, pin_B, pin_A], 900)],
         browser = True,
         trace = [(Launch, None), (NewContext, None), (NewPage, None), (Goto mugs_url, None),
                  (ScrollToBottom, None), (WaitForTimeout 1750, None),
                  (ScrollToBottom, None), (WaitForTimeout 1750, None),
                  (ExtractPins, None), (ClosePage, Some (Error ''Target closed''))],
         now = 1000\<rparr>)"
  by (simp add: run_defs)

lemma navigation_failure_run:
  "pinterestSearch (failing [(Goto mugs_url, Error ''net::ERR_TIMED_OUT'')]) ''ceramic mugs'' (Num 2) False world0
     = (Inl (Error ''net::ERR_TIMED_OUT''),
        \<lparr>cache = [], browser = True,
         trace = [(Launch, None), (NewContext, None), (NewPage, None),
                  (Goto mugs_url, Some (Error ''net::ERR_TIMED_OUT'')),
                  (ClosePage, None), (CloseContext, None)],
         now = 600\<rparr>)"
  by (simp add: run_defs)

lemma masked_failure_run:
  "pinterestSearch
     (failing [(Goto mugs_url, Error ''net::ERR_TIMED_OUT''), (ClosePage, Error ''Target closed'')])
     ''ceramic mugs'' (Num 2) False world0
     = (Inl (Error ''Target closed''),
        \<lparr>cache = [], browser = True,
         trace = [(Launch, None), (NewContext, None), (NewPage, None),
                  (Goto mugs_url, Some (Error ''net::ERR_TIMED_OUT'')),
                  (ClosePage, Some (Error ''Target closed''))],
         now = 500\<rparr>)"
  by (simp add: run_defs)

lemma newpage_failure_run:
  "pinterestSearch (failing [(NewPage, Error ''Target crashed'')]) ''ceramic mugs'' (Num 2) False world0
     = (Inl (Error ''Target crashed''),
        \<lparr>cache = [], browser = True,
         trace = [(Launch, None), (NewContext, None), (NewPage, Some (Error ''Target crashed''))],
         now = 300\<rparr>)"
  by (simp add: run_defs)

lemma abc_request_run:
  "api_pinterest (failing [])
     \<lparr>req_q = Some ''ceramic mugs'', req_scrolls = Some ''abc'', req_login = None\<rparr> world0
     = (Ok_200 (Some (assemble ''ceramic mugs'' [pin_A, pin_B, pin_A])),
        \<lparr>cache = [(''ceramic mugs|NaN|false'', assemble ''ceramic mugs'' [pin_A, pin_B, pin_A], 500)],
         browser = True,
         trace = [(Launch, None), (NewContext, None), (NewPage, None), (Goto mugs_url, None),
                  (ExtractPins, None), (ClosePage, None), (CloseContext, None)],
         now = 700\<rparr>)"
  by (simp add: run_defs api_defs)

lemma empty_scrolls_run:
  "api_pinterest (failing [])
     \<lparr>req_q = Some ''ceramic mugs'', req_scrolls = Some '''', req_login = None\<rparr> world0
     = (Ok_200 (Some (assemble ''ceramic mugs'' [pin_A, pin_B, pin_A])),
        \<lparr>cache = [(''ceramic mugs|3|false'', assemble ''ceramic mugs'' [pin_A, pin_B, pin_A], 1100)],
         browser = True,
         trace = [(Launch, None), (NewContext, None), (NewPage, None), (Goto mugs_url, None),
                  (ScrollToBottom, None), (WaitForTimeout 1750, None),
                  (ScrollToBottom, None), (WaitForTimeout 1750, None),
                  (ScrollToBottom, None), (WaitForTimeout 1750, None),
                  (ExtractPins, None), (ClosePage, None), (CloseContext, None)],
         now = 1300\<rparr>)"
  by (simp add: run_defs api_defs)

lemma parseInt10_empty: "parseInt10 '''' = NaN"
  by (simp add: api_defs)

lemma nbsp_five: "parseInt10 [CHR 0xC2, CHR 0xA0, CHR ''5''] = Num 5"
  by (simp add: api_defs)

lemma scrolls_param_empty: "scrolls_param (Some '''') = Num 3"
  by (simp add: api_defs)

lemma scrolls_param_clamped:
  "scrolls_param s = NaN \<or> (\<exists>k. scrolls_param s = Num k \<and> 1 \<le> k \<and> k \<le> 10)"
proof (cases "parseInt10 (case s of None \<Rightarrow> ''3'' | Some t \<Rightarrow> if t = [] then ''3'' else t)")
  case NaN
  then show ?thesis by (simp add: scrolls_param_def)
next
  case (Num n)
  then show ?thesis by (simp add: scrolls_param_def)
qed

lemma scrolls_param_examples:
  "scrolls_param (Some ''abc'') = NaN" "scrolls_param (Some ''0'') = Num 1"
  "scrolls_param (Some ''15'') = Num 10" "scrolls_param None = Num 3"
  "scrolls_param (Some ''7'') = Num 7"
  by (simp_all add: api_defs)

lemma world0_fields:
  "cache world0 = []" "browser world0 = False" "trace world0 = []" "now world0 = 0"
  by (simp_all add: world0_def)

lemma miss_world0: "\<not> cache_has (cache world0) (now world0) k"
  by (simp add: cache_has_def world0_fields)

lemma calm_run_world1:
  "pinterestSearch (failing []) ''ceramic mugs'' (Num 2) False world0
     = (Inr (Some (assemble ''ceramic mugs'' [pin_A, pin_B, pin_A])), world1)"
  by (simp add: calm_run world1_def)

lemma world1_hit: "cache_has (cache world1) (now world1) (cacheKey ''ceramic mugs'' (Num 2) False)"
  by (simp add: world1_def cache_has_def cacheKey_def digits_of.simps char_of_digits ttl_def)

section \<open>Properties of the cache key and the cache\<close>

lemma digit_char: "d < 10 \<Longrightarrow> of_char (char_of (48 + d :: nat)) = (48 + d :: nat)"
  by simp

lemma digits_of_chars: "c \<in> set (digits_of n) \<Longrightarrow> is_digit c"
proof (induction n rule: digits_of.induct)
  case (1 n)
  show ?case
  proof (cases "n < 10")
    case True
    with "1.prems" have "c = char_of (48 + n)" by (simp add: digits_of.simps)
    with True show ?thesis by (simp add: is_digit_def)
  next
    case False
    with "1.prems" have "c \<in> set (digits_of (n div 10)) \<or> c = char_of (48 + n mod 10)"
      by (subst (asm) digits_of.simps) auto
    then show ?thesis
    proof
      assume "c \<in> set (digits_of (n div 10))"
      with "1.IH" False show ?thesis by simp
    next
      assume "c = char_of (48 + n mod 10)"
      moreover have "n mod 10 < 10" by simp
      ultimately show ?thesis using digit_char [of "n mod 10"] by (simp add: is_digit_def)
    qed
  qed
qed

lemma decode_digits: "foldl (\<lambda>a c. 10 * a + digit_value c) 0 (digits_of n) = n"
proof (induction n rule: digits_of.induct)
  case (1 n)
  show ?case
  proof (cases "n < 10")
    case True
    then show ?thesis by (simp add: digits_of.simps digit_value_def)
  next
    case False
    have "n mod 10 < 10" by simp
    then have d: "digit_value (char_of (48 + n mod 10)) = n mod 10"
      using digit_char [of "n mod 10"] by (simp add: digit_value_def)
    have "digits_of n = digits_of (n div 10) @ [char_of (48 + n mod 10)]"
      using False by (subst digits_of.simps) simp
    with "1.IH" [OF False] d show ?thesis by simp
  qed
qed

lemma digits_of_inj: "digits_of a = digits_of b \<Longrightarrow> a = b"
  by (metis decode_digits)

lemma digits_of_nonempty: "digits_of n \<noteq> []"
  by (subst digits_of.simps) simp

lemma not_digit: "\<not> is_digit CHR ''N''" "\<not> is_digit CHR ''-''" "\<not> is_digit CHR ''|''"
  by (simp_all add: is_digit_def)

lemma digits_of_head: "digits_of n = c # cs \<Longrightarrow> is_digit c"
  using digits_of_chars [of c n] by simp

lemma number_to_string_inj: "number_to_string a = number_to_string b \<Longrightarrow> a = b"
proof (cases a; cases b)
  fix i j
  assume ab: "a = Num i" "b = Num j" and eq: "number_to_string a = number_to_string b"
  show "a = b"
  proof (cases "i < 0"; cases "j < 0")
    assume "i < 0" "j < 0"
    with eq ab have "digits_of (nat (- i)) = digits_of (nat (- j))" by simp
    then have "nat (- i) = nat (- j)" by (rule digits_of_inj)
    with \<open>i < 0\<close> \<open>j < 0\<close> ab show ?thesis by simp
  next
    assume "i < 0" "\<not> j < 0"
    with eq ab have "digits_of (nat j) = CHR ''-'' # digits_of (nat (- i))" by simp
    from digits_of_head [OF this] not_digit show ?thesis by simp
  next
    assume "\<not> i < 0" "j < 0"
    with eq ab have "digits_of (nat i) = CHR ''-'' # digits_of (nat (- j))" by simp
    from digits_of_head [OF this] not_digit show ?thesis by simp
  next
    assume "\<not> i < 0" "\<not> j < 0"
    with eq ab have "digits_of (nat i) = digits_of (nat j)" by simp
    then have "nat i = nat j" by (rule digits_of_inj)
    with \<open>\<not> i < 0\<close> \<open>\<not> j < 0\<close> ab show ?thesis by simp
  qed
next
  fix j
  assume ab: "a = NaN" "b = Num j" and eq: "number_to_string a = number_to_string b"
  show "a = b"
  proof (cases "j < 0")
    case True
    with eq ab show ?thesis by simp
  next
    case False
    with eq ab have "digits_of (nat j) = CHR ''N'' # ''aN''" by simp
    from digits_of_head [OF this] not_digit show ?thesis by simp
  qed
next
  fix i
  assume ab: "a = Num i" "b = NaN" and eq: "number_to_string a = number_to_string b"
  show "a = b"
  proof (cases "i < 0")
    case True
    with eq ab show ?thesis by simp
  next
    case False
    with eq ab have "digits_of (nat i) = CHR ''N'' # ''aN''" by simp
    from digits_of_head [OF this] not_digit show ?thesis by simp
  qed
qed simp

lemma number_to_string_no_bar: "CHR ''|'' \<notin> set (number_to_string a)"
proof (cases a)
  case NaN
  then show ?thesis by simp
next
  case (Num i)
  have "CHR ''|'' \<notin> set (digits_of n)" for n
    using digits_of_chars [of "CHR ''|''" n] not_digit by blast
  with Num show ?thesis by simp
qed

lemma split_at_last:
  "c \<notin> set xs \<Longrightarrow> c \<notin> set xs' \<Longrightarrow> ys @ c # xs = ys' @ c # xs' \<Longrightarrow> ys = ys' \<and> xs = xs'"
proof (induction ys arbitrary: ys')
  case Nil
  then show ?case by (cases ys') auto
next
  case (Cons y ys)
  show ?case
  proof (cases ys')
    case Nil
    with Cons.prems show ?thesis by auto
  next
    case (Cons z zs)
    with Cons.prems Cons.IH [of zs] show ?thesis by auto
  qed
qed

lemma cacheKey_inj:
  assumes "cacheKey q s l = cacheKey q' s' l'"
  shows "q = q' \<and> s = s' \<and> l = l'"
proof -
  let ?b = "\<lambda>l. if l then ''true'' else ''false''"
  have nb: "CHR ''|'' \<notin> set (?b l)" "CHR ''|'' \<notin> set (?b l')" by simp_all
  have "(q @ CHR ''|'' # number_to_string s) @ CHR ''|'' # ?b l
      = (q' @ CHR ''|'' # number_to_string s') @ CHR ''|'' # ?b l'"
    using assms by (simp add: cacheKey_def)
  from split_at_last [OF nb this]
  have 1: "q @ CHR ''|'' # number_to_string s = q' @ CHR ''|'' # number_to_string s'"
    and 2: "?b l = ?b l'" by simp_all
  from split_at_last [OF number_to_string_no_bar number_to_string_no_bar 1]
  have "q = q'" "number_to_string s = number_to_string s'" by simp_all
  moreover from 2 have "l = l'" by (cases l; cases l') simp_all
  ultimately show ?thesis using number_to_string_inj by blast
qed

lemma hit_untouched:
  assumes "map_of (cache w) (cacheKey q scrolls login) = Some (v, start)" "now w \<le> start + ttl"
  shows "fst (pinterestSearch env q scrolls login w) = Inr (Some v)"
    and "trace (snd (pinterestSearch env q scrolls login w)) = trace w"
    and "browser (snd (pinterestSearch env q scrolls login w)) = browser w"
    and "now (snd (pinterestSearch env q scrolls login w)) = now w"
  using assms by (simp_all add: pinterestSearch_def cache_has_def cache_get_def)

lemma cache_set_lookup: "map_of (cache_set c t k v) k = Some (v, t)"
  by (simp add: cache_set_def max_entries_def)

lemma success_cached:
  assumes run: "pinterestSearch env q scrolls login w = (Inr r, w1)"
  shows "\<exists>v ts. r = Some v \<and> map_of (cache w1) (cacheKey q scrolls login) = Some (v, ts)"
proof (cases "cache_has (cache w) (now w) (cacheKey q scrolls login)")
  case True
  from hit_run [OF True, of env] run show ?thesis by auto
next
  case False
  from miss_run [OF False run] show ?thesis
  proof (elim disjE exE conjE)
    fix e pre
    assume "Inr r = (Inl e :: error + search_result option)"
    then show ?thesis by simp
  next
    fix pre body rb fin rf
    assume a: "Inr r = settle rf rb q"
      "case rb of
         Inl e \<Rightarrow> cache w1 = cache w
       | Inr pins \<Rightarrow>
           (\<exists>t. cache w1 = cache_set (cache w) t (cacheKey q scrolls login) (assemble q pins))
           \<and> (\<exists>h. pins = page_pins env h)"
    from settle_success [OF a(1) [symmetric]] obtain pins where
      p: "rb = Inr pins" "r = Some (assemble q pins)" by blast
    with a(2) obtain t where
      "cache w1 = cache_set (cache w) t (cacheKey q scrolls login) (assemble q pins)" by auto
    with p(2) show ?thesis by (simp add: cache_set_lookup)
  qed
qed

section \<open>The score is an integer between 0 and 100\<close>

lemma Math_round_zero: "Math_round 0 = 0"
proof -
  have "\<lfloor>(1::rat) / 2\<rfloor> = 0" by (rule floor_unique) simp_all
  then show ?thesis by (simp add: Math_round_def)
qed

lemma computeKD_empty: "computeKD [] 0 = 0"
  by (simp add: computeKD_def avgSaves_def fl_def rne_zero Math_round_zero Let_def)

text \<open>
  Claim C2. For every list of records and every \<open>loadedCount \<ge> 0\<close>, \<open>computeKD\<close> returns
  an integer between 0 and 100, and \<open>computeKD [] 0 = 0\<close>. The scorer is a total function
  of its two arguments: it has no failing branch and consults no state.
\<close>

theorem computeKD_range:
  "0 \<le> computeKD pins loadedCount \<and> computeKD pins loadedCount \<le> 100 \<and> computeKD [] 0 = 0"
proof -
  have pop: "0 \<le> min1 (ddiv (avgSaves (take 20 pins)) 500)"
    "min1 (ddiv (avgSaves (take 20 pins)) 500) \<le> 1"
    using min1_range [of "ddiv (avgSaves (take 20 pins)) 500"]
    by (simp_all add: nonneg_ddiv nonneg_avgSaves)
  have vol: "0 \<le> min1 (fl (of_nat loadedCount / 1000))"
    "min1 (fl (of_nat loadedCount / 1000)) \<le> 1"
    using min1_range [of "fl (of_nat loadedCount / 1000)"]
    by (simp_all add: nonneg_fl)
  have "0 \<le> computeKD pins loadedCount \<and> computeKD pins loadedCount \<le> 100"
    unfolding computeKD_def Let_def
    using vol pop by (rule weighted_range)
  with computeKD_empty show ?thesis by blast
qed

section \<open>Deduplication keeps first occurrences\<close>

text \<open>
  Claim C3. For every list of records, the deduplication keeps for each identifier only
  the first record in input order: the identifiers of the output are pairwise distinct, the
  output is a subsequence of the input, the first record with any given identifier is the
  same in output and input, the identifiers of the output are those of the input in the
  order of their first occurrences, the head of the input is kept at the head and followed
  by the deduplicated rest without the records of its identifier, the empty list is mapped
  to itself, and deduplicating twice is deduplicating once.
\<close>

theorem uniquePins_keeps_first:
  "distinct (map pinId (uniquePins pins))
   \<and> subseq (uniquePins pins) pins
   \<and> (\<forall>k. find (\<lambda>x. pinId x = k) (uniquePins pins) = find (\<lambda>x. pinId x = k) pins)
   \<and> map pinId (uniquePins pins) = rev (remdups (rev (map pinId pins)))
   \<and> (\<forall>p ps. uniquePins (p # ps) = p # filter (\<lambda>x. pinId x \<noteq> pinId p) (uniquePins ps))
   \<and> uniquePins [] = []
   \<and> uniquePins (uniquePins pins) = uniquePins pins"
proof -
  have "first_seen [] (first_seen [] pins) = first_seen [] pins"
    by (rule first_seen_fixed) (simp_all add: first_seen_distinct)
  moreover have "uniquePins [] = []" by (simp add: uniquePins_first_seen)
  ultimately show ?thesis
    using uniquePins_id_order [of pins] uniquePins_Cons
    by (simp add: uniquePins_first_seen first_seen_distinct first_seen_subseq first_seen_find)
qed

section \<open>Release of the page and its context\<close>

text \<open>
  Claim C4, at two inputs where the code departs from it. When closing the page fails, the
  run ends with that failure and closing the context is never attempted. When
  \<^verbatim>\<open>context.newPage()\<close> fails, the try block has not been entered and the context that
  was just created is never closed.
\<close>

theorem context_never_closed:
  "trace (snd (pinterestSearch (failing [(ClosePage, Error ''Target closed'')])
                 ''ceramic mugs'' (Num 2) False world0))
     = [(Launch, None), (NewContext, None), (NewPage, None), (Goto mugs_url, None),
        (ScrollToBottom, None), (WaitForTimeout 1750, None),
        (ScrollToBottom, None), (WaitForTimeout 1750, None),
        (ExtractPins, None), (ClosePage, Some (Error ''Target closed''))]
   \<and> CloseContext \<notin> set (map fst (trace (snd (pinterestSearch
         (failing [(ClosePage, Error ''Target closed'')]) ''ceramic mugs'' (Num 2) False world0))))
   \<and> trace (snd (pinterestSearch (failing [(NewPage, Error ''Target crashed'')])
                 ''ceramic mugs'' (Num 2) False world0))
     = [(Launch, None), (NewContext, None), (NewPage, Some (Error ''Target crashed''))]
   \<and> CloseContext \<notin> set (map fst (trace (snd (pinterestSearch
         (failing [(NewPage, Error ''Target crashed'')]) ''ceramic mugs'' (Num 2) False world0))))"
  by (simp add: close_failure_run newpage_failure_run)

section \<open>Failures of the miss path\<close>

text \<open>
  Claim C5, as amended. If an action other than the two closing ones fails during the
  cache-miss path, the caller receives an error that the browser raised, never a Search
  Result; no failed action is attempted again; the cache is left as it was; and when
  neither close fails, the error received is exactly the error of the failed action.
\<close>

theorem failure_propagates:
  assumes miss: "\<not> cache_has (cache w) (now w) (cacheKey q scrolls login)"
    and run: "pinterestSearch env q scrolls login w = (r, w')"
    and fail: "(a, Some e) \<in> set (events_since w w')"
    and nc: "a \<noteq> ClosePage" "a \<noteq> CloseContext"
  shows "(\<exists>e' a'. r = Inl e' \<and> (a', Some e') \<in> set (events_since w w'))
       \<and> cache w' = cache w
       \<and> no_retry (events_since w w')
       \<and> ((\<forall>x. (ClosePage, Some x) \<notin> set (events_since w w')
                \<and> (CloseContext, Some x) \<notin> set (events_since w w'))
            \<longrightarrow> r = Inl e)"
  using miss_run [OF miss run]
proof (elim disjE exE conjE)
  fix e0 pre
  assume a: "r = Inl e0" "events_since w w' = pre" "shape pre (Inl e0 :: error + unit)"
    "cache w' = cache w"
  from shape_failure [OF a(3)] fail a(2) have "e0 = e" by auto
  moreover have "no_retry pre" using a(3) by (rule no_retry_shape)
  ultimately show ?thesis using a fail by auto
next
  fix pre body rb fin rf
  assume a: "events_since w w' = pre @ [(NewPage, None)] @ body @ fin"
    "all_ok pre" "shape body rb" "fin_shape fin rf" "r = settle rf rb q"
    "case rb of
       Inl e \<Rightarrow> cache w' = cache w
     | Inr pins \<Rightarrow>
         (\<exists>t. cache w' = cache_set (cache w) t (cacheKey q scrolls login) (assemble q pins))
         \<and> (\<exists>h. pins = page_pins env h)"
  have notfin: "(a, Some e) \<notin> set fin" using fin_actions [OF a(4)] nc by force
  have "(a, Some e) \<in> set body"
    using fail all_ok_no_failure [OF a(2), of a e] notfin unfolding a(1) by simp
  from shape_failure [OF a(3) this] obtain b0 where
    rb: "rb = Inl e" and body: "body = b0 @ [(a, Some e)]" "all_ok b0" by blast
  have c: "cache w' = cache w" using a(6) rb by simp
  have mem: "\<And>ev. ev \<in> set fin \<Longrightarrow> ev \<in> set (events_since w w')"
    unfolding a(1) by simp
  have res: "(\<exists>e' a'. r = Inl e' \<and> (a', Some e') \<in> set (events_since w w'))
       \<and> ((\<forall>x. (ClosePage, Some x) \<notin> set (events_since w w')
                \<and> (CloseContext, Some x) \<notin> set (events_since w w'))
            \<longrightarrow> r = Inl e)"
    using fin_result [OF a(4)]
  proof (elim disjE exE conjE)
    assume "rf = Inr ()"
    then have "r = Inl e" using a(5) rb by (simp add: settle_def)
    with fail show ?thesis by blast
  next
    fix x c
    assume x: "rf = Inl x" "(c, Some x) \<in> set fin" "c \<in> {ClosePage, CloseContext}"
    then have "r = Inl x" using a(5) by (simp add: settle_def)
    moreover have "(c, Some x) \<in> set (events_since w w')" using x(2) by (rule mem)
    ultimately show ?thesis using x(3) by blast
  qed
  have "a \<notin> fst ` set fin" using fin_actions [OF a(4)] nc by blast
  then have "no_retry (body @ fin)"
    using no_retry_shape [OF a(3)] no_retry_fin [OF a(4)] body
    by (simp add: no_retry_append all_ok_def list_all_iff) 
  then have "no_retry (events_since w w')"
    unfolding a(1) using a(2) no_retry_all_ok [OF a(2)]
    by (simp add: no_retry_append all_ok_def list_all_iff)
  with res c show ?thesis by blast
qed

text \<open>
  The amended claim at a failed navigation: the caller receives the navigation error
  itself, the cache stays empty, nothing is attempted twice.
\<close>

theorem failure_propagates_witness:
  "\<not> cache_has (cache world0) (now world0) (cacheKey ''ceramic mugs'' (Num 2) False)
   \<and> (Goto mugs_url, Some (Error ''net::ERR_TIMED_OUT''))
       \<in> set (events_since world0 (snd (pinterestSearch
             (failing [(Goto mugs_url, Error ''net::ERR_TIMED_OUT'')]) ''ceramic mugs'' (Num 2) False world0)))
   \<and> Goto mugs_url \<noteq> ClosePage \<and> Goto mugs_url \<noteq> CloseContext
   \<and> fst (pinterestSearch (failing [(Goto mugs_url, Error ''net::ERR_TIMED_OUT'')])
            ''ceramic mugs'' (Num 2) False world0) = Inl (Error ''net::ERR_TIMED_OUT'')
   \<and> cache (snd (pinterestSearch (failing [(Goto mugs_url, Error ''net::ERR_TIMED_OUT'')])
            ''ceramic mugs'' (Num 2) False world0)) = cache world0
   \<and> no_retry (events_since world0 (snd (pinterestSearch
             (failing [(Goto mugs_url, Error ''net::ERR_TIMED_OUT'')]) ''ceramic mugs'' (Num 2) False world0)))"
proof -
  let ?env = "failing [(Goto mugs_url, Error ''net::ERR_TIMED_OUT'')]"
  let ?r = "fst (pinterestSearch ?env ''ceramic mugs'' (Num 2) False world0)"
  let ?w = "snd (pinterestSearch ?env ''ceramic mugs'' (Num 2) False world0)"
  have miss: "\<not> cache_has (cache world0) (now world0) (cacheKey ''ceramic mugs'' (Num 2) False)"
    by (rule miss_world0)
  have run: "pinterestSearch ?env ''ceramic mugs'' (Num 2) False world0 = (?r, ?w)" by simp
  have fail: "(Goto mugs_url, Some (Error ''net::ERR_TIMED_OUT'')) \<in> set (events_since world0 ?w)"
    by (simp add: navigation_failure_run events_since_def world0_fields)
  have closes: "\<forall>x. (ClosePage, Some x) \<notin> set (events_since world0 ?w)
      \<and> (CloseContext, Some x) \<notin> set (events_since world0 ?w)"
    by (simp add: navigation_failure_run events_since_def world0_fields)
  from failure_propagates [OF miss run fail] closes miss fail show ?thesis by simp
qed

text \<open>
  Claim C5 as stated fails. When the navigation fails and closing the page fails as well,
  the caller receives the error of the close, not that of the navigation.
\<close>

theorem close_error_masks_failure:
  "fst (pinterestSearch
          (failing [(Goto mugs_url, Error ''net::ERR_TIMED_OUT''), (ClosePage, Error ''Target closed'')])
          ''ceramic mugs'' (Num 2) False world0)
     = Inl (Error ''Target closed'')
   \<and> trace (snd (pinterestSearch
          (failing [(Goto mugs_url, Error ''net::ERR_TIMED_OUT''), (ClosePage, Error ''Target closed'')])
          ''ceramic mugs'' (Num 2) False world0))
     = [(Launch, None), (NewContext, None), (NewPage, None),
        (Goto mugs_url, Some (Error ''net::ERR_TIMED_OUT'')),
        (ClosePage, Some (Error ''Target closed''))]
   \<and> Error ''Target closed'' \<noteq> Error ''net::ERR_TIMED_OUT''"
  by (simp add: masked_failure_run)

section \<open>The assembled Search Result\<close>

text \<open>
  Claim C9. Every Search Result that a cache-miss fetch returns is assembled from the
  extracted records: its \<open>loadedPins\<close> is the number of unique records, its
  \<open>sample\<close> is the first 50 of the unique list, hence has at most 50 records with
  pairwise distinct identifiers, and \<open>lowCompetition\<close> holds exactly when
  \<open>keywordDifficulty\<close> is at most 35.
\<close>

theorem assembled_result:
  assumes miss: "\<not> cache_has (cache w) (now w) (cacheKey q scrolls login)"
    and run: "pinterestSearch env q scrolls login w = (Inr v, w')"
  shows "\<exists>out pins h. v = Some out \<and> pins = page_pins env h
           \<and> query out = q
           \<and> loadedPins out = length (uniquePins pins)
           \<and> sample out = take 50 (uniquePins pins)
           \<and> length (sample out) \<le> 50
           \<and> distinct (map pinId (sample out))
           \<and> keywordDifficulty out = computeKD (uniquePins pins) (length (uniquePins pins))
           \<and> lowCompetition out = (keywordDifficulty out \<le> 35)"
  using miss_run [OF miss run]
proof (elim disjE exE conjE)
  fix e pre
  assume "Inr v = (Inl e :: error + search_result option)"
  then show ?thesis by simp
next
  fix pre body rb fin rf
  assume a: "Inr v = settle rf rb q"
    "case rb of
       Inl e \<Rightarrow> cache w' = cache w
     | Inr pins \<Rightarrow>
         (\<exists>t. cache w' = cache_set (cache w) t (cacheKey q scrolls login) (assemble q pins))
         \<and> (\<exists>h. pins = page_pins env h)"
  from settle_success [OF a(1) [symmetric]] obtain pins where
    p: "rb = Inr pins" "v = Some (assemble q pins)" by blast
  with a(2) obtain h where h: "pins = page_pins env h" by auto
  have "length (sample (assemble q pins)) \<le> 50" by (simp add: assemble_fields)
  moreover have "distinct (map pinId (sample (assemble q pins)))"
    by (simp add: assemble_fields sample_distinct)
  ultimately show ?thesis using p(2) h assemble_fields [of q pins] by blast
qed

text \<open>
  The claim at the scenario, where the fetch succeeds.
\<close>

theorem assembled_result_witness:
  "\<not> cache_has (cache world0) (now world0) (cacheKey ''ceramic mugs'' (Num 2) False)
   \<and> (\<exists>out pins h.
         fst (pinterestSearch (failing []) ''ceramic mugs'' (Num 2) False world0) = Inr (Some out)
         \<and> pins = page_pins (failing []) h
         \<and> query out = ''ceramic mugs''
         \<and> loadedPins out = length (uniquePins pins)
         \<and> sample out = take 50 (uniquePins pins)
         \<and> length (sample out) \<le> 50
         \<and> distinct (map pinId (sample out))
         \<and> keywordDifficulty out = computeKD (uniquePins pins) (length (uniquePins pins))
         \<and> lowCompetition out = (keywordDifficulty out \<le> 35))"
proof -
  have miss: "\<not> cache_has (cache world0) (now world0) (cacheKey ''ceramic mugs'' (Num 2) False)"
    by (rule miss_world0)
  have f: "fst (pinterestSearch (failing []) ''ceramic mugs'' (Num 2) False world0)
      = Inr (Some (assemble ''ceramic mugs'' [pin_A, pin_B, pin_A]))"
    by (simp add: calm_run)
  from assembled_result [OF miss calm_run] obtain out pins h where
    o: "Some (assemble ''ceramic mugs'' [pin_A, pin_B, pin_A]) = Some out"
      "pins = page_pins (failing []) h \<and> query out = ''ceramic mugs''
       \<and> loadedPins out = length (uniquePins pins)
       \<and> sample out = take 50 (uniquePins pins)
       \<and> length (sample out) \<le> 50
       \<and> distinct (map pinId (sample out))
       \<and> keywordDifficulty out = computeKD (uniquePins pins) (length (uniquePins pins))
       \<and> lowCompetition out = (keywordDifficulty out \<le> 35)"
    by blast
  have "fst (pinterestSearch (failing []) ''ceramic mugs'' (Num 2) False world0) = Inr (Some out)"
    using f o(1) by simp
  with o(2) miss show ?thesis by blast
qed

section \<open>A scroll count that does not parse\<close>

text \<open>
  Claim C10, as amended. For a request whose \<open>scrolls\<close> parameter is present, not
  empty, and does not parse as an integer, the clamp of line 152 yields \<^verbatim>\<open>NaN\<close>, that
  value is what the orchestrator receives, the scroll loop returns at once, and the
  handling of the request begins no scroll iteration.
\<close>

theorem unparsable_scrolls:
  assumes present: "req_scrolls req = Some t" "t \<noteq> []"
    and unparsable: "parseInt10 t = NaN"
  shows "scrolls_param (req_scrolls req) = NaN
       \<and> scroll_loop env (scrolls_param (req_scrolls req)) 0 w = (Inr (), w)
       \<and> iterations (events_since w (snd (api_pinterest env req w))) = 0
       \<and> (trim (text_of (req_q req)) \<noteq> [] \<longrightarrow>
            snd (api_pinterest env req w)
              = snd (pinterestSearch env (trim (text_of (req_q req))) NaN
                       (req_login req = Some ''1'') w))"
proof -
  have s: "scrolls_param (req_scrolls req) = NaN"
    using assms by (simp add: scrolls_param_def)
  have l: "scroll_loop env NaN 0 w = (Inr (), w)" by (simp add: scroll_loop.simps)
  have api: "trim (text_of (req_q req)) \<noteq> [] \<Longrightarrow>
      snd (api_pinterest env req w)
        = snd (pinterestSearch env (trim (text_of (req_q req))) NaN (req_login req = Some ''1'') w)"
    by (auto simp: api_pinterest_def Let_def s split: prod.splits sum.splits error.splits)
  have "iterations (events_since w (snd (api_pinterest env req w))) = 0"
  proof (cases "trim (text_of (req_q req)) = []")
    case True
    then show ?thesis by (simp add: api_pinterest_def events_since_def iterations_def)
  next
    case False
    from api [OF False] NaN_run_iterations show ?thesis by simp
  qed
  with s l api show ?thesis by simp
qed

text \<open>
  The claim at the request \<^verbatim>\<open>?q=ceramic mugs&scrolls=abc\<close>.
\<close>

theorem unparsable_scrolls_witness:
  "req_scrolls \<lparr>req_q = Some ''ceramic mugs'', req_scrolls = Some ''abc'', req_login = None\<rparr> = Some ''abc''
   \<and> ''abc'' \<noteq> [] \<and> parseInt10 ''abc'' = NaN
   \<and> scrolls_param (Some ''abc'') = NaN
   \<and> iterations (events_since world0 (snd (api_pinterest (failing [])
        \<lparr>req_q = Some ''ceramic mugs'', req_scrolls = Some ''abc'', req_login = None\<rparr> world0))) = 0"
proof -
  let ?req = "\<lparr>req_q = Some ''ceramic mugs'', req_scrolls = Some ''abc'', req_login = None\<rparr>"
  have p: "parseInt10 ''abc'' = NaN" by (simp add: api_defs)
  have s: "req_scrolls ?req = Some ''abc''" by simp
  from unparsable_scrolls [OF s _ p, of "failing []" world0] p show ?thesis by simp
qed

text \<open>
  Claim C10 as stated fails. An empty \<open>scrolls\<close> parameter is present and does not parse
  as an integer, but line 152 replaces the empty string by \<^verbatim>\<open>'3'\<close>: the clamp yields 3
  and the fetch scrolls three times.
\<close>

theorem empty_scrolls_defaults:
  "req_scrolls \<lparr>req_q = Some ''ceramic mugs'', req_scrolls = Some '''', req_login = None\<rparr> = Some ''''
   \<and> parseInt10 '''' = NaN
   \<and> scrolls_param (Some '''') = Num 3
   \<and> iterations (trace (snd (api_pinterest (failing [])
        \<lparr>req_q = Some ''ceramic mugs'', req_scrolls = Some '''', req_login = None\<rparr> world0))) = 3"
  by (simp add: parseInt10_empty scrolls_param_empty empty_scrolls_run iterations_def)

section \<open>The scenario of the specification\<close>

text \<open>
  Claim C1. For the query "ceramic mugs" with two scrolls and no login, when the extraction
  yields the records A, B, A with 100, 50 and 100 saves, deduplication gives the list A, B,
  the score of that list with a loaded count of 2 is 6, and the fetch returns the result
  with \<open>loadedPins = 2\<close>, \<open>keywordDifficulty = 6\<close> and \<open>lowCompetition = True\<close>.
\<close>

theorem scenario_ceramic_mugs:
  "uniquePins [pin_A, pin_B, pin_A] = [pin_A, pin_B]
   \<and> computeKD [pin_A, pin_B] 2 = 6
   \<and> fst (pinterestSearch (failing []) ''ceramic mugs'' (Num 2) False world0)
       = Inr (Some \<lparr>query = ''ceramic mugs'', loadedPins = 2, keywordDifficulty = 6,
                     lowCompetition = True, sample = [pin_A, pin_B]\<rparr>)"
  by (simp add: uniquePins_scenario computeKD_scenario calm_run assemble_scenario)

section \<open>Cache hits\<close>

text \<open>
  Claim C6. When the key of the parameters maps to a present, unexpired cache entry, the
  call returns the cached Search Result and adds nothing to the history of browser actions,
  nor launches the browser. And after a call that returned a result, every call with the
  same parameters at a time within the time-to-live of the entry returns the same result
  without any browser action, whatever the environment would do.
\<close>

theorem cache_hit_no_browser:
  "(cache_has (cache w) (now w) (cacheKey q scrolls login) \<longrightarrow>
      (\<exists>v start. map_of (cache w) (cacheKey q scrolls login) = Some (v, start)
         \<and> fst (pinterestSearch env q scrolls login w) = Inr (Some v)
         \<and> trace (snd (pinterestSearch env q scrolls login w)) = trace w
         \<and> browser (snd (pinterestSearch env q scrolls login w)) = browser w))
   \<and> (pinterestSearch env q scrolls login w = (Inr r, w1) \<longrightarrow>
      (\<exists>v ts. r = Some v \<and> map_of (cache w1) (cacheKey q scrolls login) = Some (v, ts)
         \<and> (\<forall>t env2. t \<le> ts + ttl \<longrightarrow>
               fst (pinterestSearch env2 q scrolls login (w1\<lparr>now := t\<rparr>)) = Inr (Some v)
               \<and> trace (snd (pinterestSearch env2 q scrolls login (w1\<lparr>now := t\<rparr>))) = trace w1)))"
proof (intro conjI impI)
  assume "cache_has (cache w) (now w) (cacheKey q scrolls login)"
  then obtain v start where
    h: "map_of (cache w) (cacheKey q scrolls login) = Some (v, start)" "now w \<le> start + ttl"
    by (auto simp: cache_has_def split: option.splits)
  from hit_untouched [OF h, of env] h(1)
  show "\<exists>v start. map_of (cache w) (cacheKey q scrolls login) = Some (v, start)
         \<and> fst (pinterestSearch env q scrolls login w) = Inr (Some v)
         \<and> trace (snd (pinterestSearch env q scrolls login w)) = trace w
         \<and> browser (snd (pinterestSearch env q scrolls login w)) = browser w"
    by blast
next
  assume "pinterestSearch env q scrolls login w = (Inr r, w1)"
  from success_cached [OF this] obtain v ts where
    c: "r = Some v" "map_of (cache w1) (cacheKey q scrolls login) = Some (v, ts)" by blast
  have "fst (pinterestSearch env2 q scrolls login (w1\<lparr>now := t\<rparr>)) = Inr (Some v)
      \<and> trace (snd (pinterestSearch env2 q scrolls login (w1\<lparr>now := t\<rparr>))) = trace w1"
    if "t \<le> ts + ttl" for t env2
    using hit_untouched(1,2) [of "w1\<lparr>now := t\<rparr>" q scrolls login v ts env2] c(2) that by simp
  with c show "\<exists>v ts. r = Some v \<and> map_of (cache w1) (cacheKey q scrolls login) = Some (v, ts)
         \<and> (\<forall>t env2. t \<le> ts + ttl \<longrightarrow>
               fst (pinterestSearch env2 q scrolls login (w1\<lparr>now := t\<rparr>)) = Inr (Some v)
               \<and> trace (snd (pinterestSearch env2 q scrolls login (w1\<lparr>now := t\<rparr>))) = trace w1)"
    by blast
qed

text \<open>
  The claim at the scenario: a second request finds the entry, even in an environment where
  the browser could not start, and still does at the last millisecond of the entry's life.
\<close>

theorem cache_hit_no_browser_witness:
  "cache_has (cache world1) (now world1) (cacheKey ''ceramic mugs'' (Num 2) False)
   \<and> pinterestSearch (failing []) ''ceramic mugs'' (Num 2) False world0
       = (Inr (Some (assemble ''ceramic mugs'' [pin_A, pin_B, pin_A])), world1)
   \<and> fst (pinterestSearch (failing [(Launch, Error ''no browser'')]) ''ceramic mugs'' (Num 2) False world1)
       = Inr (Some (assemble ''ceramic mugs'' [pin_A, pin_B, pin_A]))
   \<and> trace (snd (pinterestSearch (failing [(Launch, Error ''no browser'')]) ''ceramic mugs'' (Num 2) False world1))
       = trace world1
   \<and> fst (pinterestSearch (failing []) ''ceramic mugs'' (Num 2) False (world1\<lparr>now := 1800900\<rparr>))
       = Inr (Some (assemble ''ceramic mugs'' [pin_A, pin_B, pin_A]))
   \<and> trace (snd (pinterestSearch (failing []) ''ceramic mugs'' (Num 2) False (world1\<lparr>now := 1800900\<rparr>)))
       = trace world1"
proof -
  let ?out = "assemble ''ceramic mugs'' [pin_A, pin_B, pin_A]"
  let ?key = "cacheKey ''ceramic mugs'' (Num 2) False"
  have m: "map_of (cache world1) ?key = Some (?out, 900)"
    by (simp add: world1_def cacheKey_def digits_of.simps char_of_digits)
  from cache_hit_no_browser [of world1 "''ceramic mugs''" "Num 2" False
      "failing [(Launch, Error ''no browser'')]"] world1_hit m
  have 1: "fst (pinterestSearch (failing [(Launch, Error ''no browser'')]) ''ceramic mugs'' (Num 2) False world1)
       = Inr (Some ?out)
     \<and> trace (snd (pinterestSearch (failing [(Launch, Error ''no browser'')]) ''ceramic mugs'' (Num 2) False world1))
       = trace world1"
    by auto
  from cache_hit_no_browser [of world0 "''ceramic mugs''" "Num 2" False "failing []"
      "Some ?out" world1] calm_run_world1 m
  have 2: "\<forall>t env2. t \<le> 900 + ttl \<longrightarrow>
       fst (pinterestSearch env2 ''ceramic mugs'' (Num 2) False (world1\<lparr>now := t\<rparr>)) = Inr (Some ?out)
       \<and> trace (snd (pinterestSearch env2 ''ceramic mugs'' (Num 2) False (world1\<lparr>now := t\<rparr>))) = trace world1"
    by auto
  have "(1800900::nat) \<le> 900 + ttl" by (simp add: ttl_def)
  with 2 have 3: "fst (pinterestSearch (failing []) ''ceramic mugs'' (Num 2) False (world1\<lparr>now := 1800900\<rparr>))
       = Inr (Some ?out)
     \<and> trace (snd (pinterestSearch (failing []) ''ceramic mugs'' (Num 2) False (world1\<lparr>now := 1800900\<rparr>)))
       = trace world1"
    by blast
  from world1_hit calm_run_world1 1 3 show ?thesis by blast
qed

section \<open>Distinct parameters have distinct cache keys\<close>

text \<open>
  Claim C7. Two distinct triples of query, scroll count and login flag never have the same
  cache key: the scroll count and the flag are rendered without the delimiter, so the key
  is split unambiguously at its last two delimiters, also when the query contains one.
\<close>

theorem cacheKey_injective:
  "(q, scrolls, login) \<noteq> (q', scrolls', login')
     \<Longrightarrow> cacheKey q scrolls login \<noteq> cacheKey q' scrolls' login'"
  using cacheKey_inj [of q scrolls login q' scrolls' login'] by auto

text \<open>
  The claim at two triples that differ by a delimiter inside the query.
\<close>

theorem cacheKey_injective_witness:
  "(''a|1'', Num 2, False) \<noteq> (''a'', Num 1, False)
   \<and> cacheKey ''a|1'' (Num 2) False \<noteq> cacheKey ''a'' (Num 1) False"
  using cacheKey_injective [of "''a|1''" "Num 2" False "''a''" "Num 1" False] by simp

section \<open>The clamp of the scroll count\<close>

text \<open>
  Claim C8, at an input where the code departs from it. The clamp maps 0 to 1, 15 to 10
  and an absent parameter to 3, but for \<^verbatim>\<open>scrolls=abc\<close> it yields \<^verbatim>\<open>NaN\<close>, and the
  fetch of that request performs no scroll iteration.
\<close>

theorem scrolls_abc_not_clamped:
  "scrolls_param (Some ''abc'') = NaN
   \<and> iterations (trace (snd (api_pinterest (failing [])
        \<lparr>req_q = Some ''ceramic mugs'', req_scrolls = Some ''abc'', req_login = None\<rparr> world0))) = 0
   \<and> scrolls_param (Some ''0'') = Num 1
   \<and> scrolls_param (Some ''15'') = Num 10
   \<and> scrolls_param None = Num 3"
  by (simp add: scrolls_param_examples abc_request_run iterations_def)

end
